theory Spec2Isabelle
  imports Main
begin

section \<open>Values, keys and object identities\<close>

text \<open>
  Objects (raw targets, proxies, refs, computed refs) and effect functions are identified by
  natural numbers. A property key is a string or a symbol; \<open>KSym n\<close> is the \<open>n\<close>-th symbol
  created by a call of \<open>Symbol(...)\<close>, so two calls never give the same key. Numbers are
  integers: \<open>NaN\<close>, \<open>-0\<close> and fractions are not modelled.
\<close>

type_synonym ref = nat
type_synonym target = nat
type_synonym eid = nat

datatype key = KStr string | KSym nat

type_synonym dep = "target \<times> key"

datatype val = VUndefined | VNull | VBool bool | VNum int | VStr string | VRef ref

datatype obj = Plain "key \<Rightarrow> val option" | ProxyOf ref

fun truthy :: "val \<Rightarrow> bool" where
  "truthy VUndefined = False"
| "truthy VNull = False"
| "truthy (VBool b) = b"
| "truthy (VNum n) = (n \<noteq> 0)"
| "truthy (VStr s) = (s \<noteq> [])"
| "truthy (VRef r) = True"

text \<open>
  A JavaScript \<open>Set\<close> keeps insertion order and holds no duplicates: it is a list, \<open>add\<close>
  appends an absent element, \<open>delete\<close> removes the element.
\<close>

definition set_add :: "'a \<Rightarrow> 'a list \<Rightarrow> 'a list" where
  "set_add x xs = (if x \<in> set xs then xs else xs @ [x])"

section \<open>The state of the reactivity core\<close>

text \<open>
  \<open>targetMap\<close>, \<open>activeEffect\<close> and \<open>effectStack\<close> are the module variables of dep.js.
  \<open>deps e\<close> is the \<open>deps\<close> property of the effect function \<open>e\<close>: a set of dependency sets.
  A dependency set is created once for its slot \<open>targetMap[target][key]\<close> and never replaced,
  so it is named by that slot. \<open>dirty\<close> and \<open>cached\<close> are the fields \<open>_dirty\<close> and \<open>_value\<close>
  of a \<open>ComputedRefImpl\<close>; \<open>pendingJobs\<close> and \<open>isFlushing\<close> are the module variables of the
  job queue, \<open>microtasks\<close> counts the flushes handed to \<open>Promise.resolve().then\<close>; \<open>heap\<close>,
  \<open>reactiveMap\<close> and \<open>rawMap\<close> belong to reactive.ts. \<open>runs e\<close> counts how often the user
  function wrapped by effect \<open>e\<close> has been called (a spy on the callback).
\<close>

record st =
  targetMap :: "target \<Rightarrow> (key \<Rightarrow> eid list option) option"
  activeEffect :: "eid option"
  effectStack :: "eid list"
  deps :: "eid \<Rightarrow> dep list"
  runs :: "eid \<Rightarrow> nat"
  dirty :: "target \<Rightarrow> bool"
  cached :: "target \<Rightarrow> val option"
  pendingJobs :: "eid list"
  isFlushing :: bool
  microtasks :: nat
  heap :: "ref \<Rightarrow> obj option"
  reactiveMap :: "ref \<Rightarrow> ref option"
  rawMap :: "ref \<Rightarrow> ref option"
  nextRef :: ref
  symbols :: nat

definition initial :: st where
  "initial = \<lparr> targetMap = (\<lambda>_. None), activeEffect = None, effectStack = [],
     deps = (\<lambda>_. []), runs = (\<lambda>_. 0), dirty = (\<lambda>_. True), cached = (\<lambda>_. None),
     pendingJobs = [], isFlushing = False, microtasks = 0,
     heap = (\<lambda>_. None), reactiveMap = (\<lambda>_. None), rawMap = (\<lambda>_. None),
     nextRef = 0, symbols = 0 \<rparr>"

definition subscribers :: "st \<Rightarrow> target \<Rightarrow> key \<Rightarrow> eid list" where
  "subscribers s t k =
     (case targetMap s t of None \<Rightarrow> []
      | Some depsMap \<Rightarrow> (case depsMap k of None \<Rightarrow> [] | Some ds \<Rightarrow> ds))"

section \<open>dep.js: the effect stack, track and cleanup\<close>

text \<open>
  \<open>pushEffect\<close> (dep.js:31-34), \<open>popEffect\<close> (dep.js:39-42), \<open>track\<close> (dep.js:56-71) and
  \<open>cleanup\<close> (dep.js:113-118). The stack grows at the end of the list. \<open>track\<close> creates
  the map of the target and the set of the key when they are missing, before it looks for
  the active effect in the set.
\<close>

definition pushEffect :: "eid \<Rightarrow> st \<Rightarrow> st" where
  "pushEffect e s = s\<lparr>effectStack := effectStack s @ [e], activeEffect := Some e\<rparr>"

definition popEffect :: "st \<Rightarrow> st" where
  "popEffect s =
     (let stack = butlast (effectStack s)
      in s\<lparr>effectStack := stack,
            activeEffect := (if stack = [] then None else Some (last stack))\<rparr>)"

definition track :: "target \<Rightarrow> key \<Rightarrow> st \<Rightarrow> st" where
  "track t k s =
     (case activeEffect s of
        None \<Rightarrow> s
      | Some e \<Rightarrow>
          (let depsMap = (case targetMap s t of None \<Rightarrow> (\<lambda>_. None) | Some m \<Rightarrow> m);
               ds = (case depsMap k of None \<Rightarrow> [] | Some d \<Rightarrow> d)
           in if e \<in> set ds
              then s\<lparr>targetMap := (targetMap s)(t \<mapsto> depsMap(k \<mapsto> ds))\<rparr>
              else s\<lparr>targetMap := (targetMap s)(t \<mapsto> depsMap(k \<mapsto> ds @ [e])),
                     deps := (deps s)(e := set_add (t, k) (deps s e))\<rparr>))"

text \<open>\<open>deps.delete(effect)\<close> on the dependency set of one slot.\<close>

fun delete_from :: "eid \<Rightarrow> dep \<Rightarrow> st \<Rightarrow> st" where
  "delete_from e (t, k) s =
     (case targetMap s t of
        None \<Rightarrow> s
      | Some depsMap \<Rightarrow>
          (case depsMap k of
             None \<Rightarrow> s
           | Some ds \<Rightarrow> s\<lparr>targetMap := (targetMap s)(t \<mapsto> depsMap(k \<mapsto> removeAll e ds))\<rparr>))"

definition cleanup :: "eid \<Rightarrow> st \<Rightarrow> st" where
  "cleanup e s = (fold (delete_from e) (deps s e) s)\<lparr>deps := (deps s)(e := [])\<rparr>"

section \<open>User code and the calls it makes\<close>

text \<open>
  The functions handed to \<open>effect\<close>, \<open>computed\<close> and \<open>queueJob\<close> are user code. A user
  function is a script: the list of calls into the library that it makes, which may differ
  from one invocation to the next (\<open>fn p e n\<close> is what the function wrapped by effect \<open>e\<close>
  does at its \<open>n\<close>-th invocation). The calls are: \<open>track\<close>, \<open>trigger\<close> and \<open>cleanup\<close>, which
  the core exports (a read of \<open>ref.value\<close> is \<open>Track ref ''value''\<close>, a write that changes it is
  \<open>Trigger ref ''value''\<close>); a direct call of an effect function; a read of \<open>computed.value\<close>;
  \<open>queueJob\<close>; and the five operations on an object that the proxy handler traps. The options
  of an effect are the fields \<open>scheduler\<close> and \<open>lazy\<close>; \<open>getter p c\<close> is the effect that the
  computed ref \<open>c\<close> holds in \<open>_effect\<close>, and \<open>retval p e n\<close> is what the function of \<open>e\<close> returns
  at its \<open>n\<close>-th invocation.
\<close>

datatype cmd =
    Track target key
  | Trigger target key
  | Cleanup eid
  | Call eid
  | Value target
  | QueueJob eid
  | PGet ref key
  | PSet ref key val
  | PHas ref key
  | PDelete ref key
  | POwnKeys ref

datatype sched = ComputedSched target | QueueJobSched | UserSched "cmd list"

record prog =
  fn :: "eid \<Rightarrow> nat \<Rightarrow> cmd list"
  scheduler :: "eid \<Rightarrow> sched option"
  lazy :: "eid \<Rightarrow> bool"
  getter :: "target \<Rightarrow> eid"
  retval :: "eid \<Rightarrow> nat \<Rightarrow> val"

text \<open>
  What a computation did is recorded as a call tree: \<open>Tracked t k\<close> is a call of
  \<open>track(t, k)\<close>, \<open>Cleaned e\<close> a call of \<open>cleanup(e)\<close> from user code, \<open>Ran e tr\<close> a call of
  the effect function \<open>e\<close> during which \<open>tr\<close> happened, \<open>Scheduled e tr\<close> a call of the
  scheduler of \<open>e\<close> during which \<open>tr\<close> happened.
\<close>

datatype ev = Tracked target key | Cleaned eid | Ran eid "ev list" | Scheduled eid "ev list"

datatype fnref = EffectFn eid | SchedulerOf eid

type_synonym res = "(st \<times> ev list) option"
type_synonym caller = "fnref \<Rightarrow> st \<Rightarrow> res"

fun forEach :: "('a \<Rightarrow> st \<Rightarrow> res) \<Rightarrow> 'a list \<Rightarrow> st \<Rightarrow> res" where
  "forEach f [] s = Some (s, [])"
| "forEach f (x # xs) s =
     (case f x s of
        None \<Rightarrow> None
      | Some (s1, tr1) \<Rightarrow>
          (case forEach f xs s1 of
             None \<Rightarrow> None
           | Some (s2, tr2) \<Rightarrow> Some (s2, tr1 @ tr2)))"

section \<open>dep.js: trigger\<close>

text \<open>
  \<open>trigger\<close> (dep.js:85-106): the first loop copies the dependency set, without the active
  effect, into \<open>effectsToRun\<close>; the second loop calls the scheduler of each copied effect that
  has one and the effect function of each other one. Calling a function that the user
  supplied is left to the parameter \<open>call\<close>.
\<close>

definition effectsToRun :: "st \<Rightarrow> eid list \<Rightarrow> eid list" where
  "effectsToRun s ds = filter (\<lambda>effect. Some effect \<noteq> activeEffect s) ds"

definition runOrSchedule :: "caller \<Rightarrow> prog \<Rightarrow> eid \<Rightarrow> st \<Rightarrow> res" where
  "runOrSchedule call p effect s =
     (case scheduler p effect of
        Some _ \<Rightarrow> call (SchedulerOf effect) s
      | None \<Rightarrow> call (EffectFn effect) s)"

definition trigger :: "caller \<Rightarrow> prog \<Rightarrow> target \<Rightarrow> key \<Rightarrow> st \<Rightarrow> res" where
  "trigger call p t k s =
     (case targetMap s t of
        None \<Rightarrow> Some (s, [])
      | Some depsMap \<Rightarrow>
          (case depsMap k of
             None \<Rightarrow> Some (s, [])
           | Some ds \<Rightarrow> forEach (runOrSchedule call p) (effectsToRun s ds) s))"

section \<open>reactive.ts: proxies\<close>

text \<open>
  \<open>reactive\<close>, its proxy handler, \<open>isReactive\<close> and \<open>markRaw\<close> (second part of
  packages/core/src/ref.js, lines 188-342). A plain object is its own properties; \<open>Reflect\<close>
  reads, writes and deletes them (inherited properties, accessors, and properties that cannot
  be written or deleted are not modelled, so \<open>Reflect.set\<close> and \<open>Reflect.deleteProperty\<close>
  succeed). \<open>reactive\<close> never wraps a proxy, so the target of a proxy is a plain object.
  \<open>Object.is\<close> on values is equality, which is what it is on the values modelled.
\<close>

definition IS_REACTIVE :: key where
  "IS_REACTIVE = KStr ''__b_isReactive''"

definition RAW :: key where
  "RAW = KStr ''__b_raw''"

definition props_of :: "st \<Rightarrow> ref \<Rightarrow> key \<Rightarrow> val option" where
  "props_of s r = (case heap s r of Some (Plain ps) \<Rightarrow> ps | _ \<Rightarrow> (\<lambda>_. None))"

definition reflect_get :: "st \<Rightarrow> ref \<Rightarrow> key \<Rightarrow> val" where
  "reflect_get s r k = (case props_of s r k of Some v \<Rightarrow> v | None \<Rightarrow> VUndefined)"

definition reflect_has :: "st \<Rightarrow> ref \<Rightarrow> key \<Rightarrow> bool" where
  "reflect_has s r k = (props_of s r k \<noteq> None)"

definition reflect_set :: "ref \<Rightarrow> key \<Rightarrow> val \<Rightarrow> st \<Rightarrow> st" where
  "reflect_set r k v s = s\<lparr>heap := (heap s)(r \<mapsto> Plain ((props_of s r)(k \<mapsto> v)))\<rparr>"

definition reflect_deleteProperty :: "ref \<Rightarrow> key \<Rightarrow> st \<Rightarrow> st" where
  "reflect_deleteProperty r k s = s\<lparr>heap := (heap s)(r \<mapsto> Plain ((props_of s r)(k := None)))\<rparr>"

text \<open>
  Reading the two flag properties of any object: a proxy answers them in its \<open>get\<close> trap
  (without tracking), a plain object by its own property.
\<close>

definition get_IS_REACTIVE :: "st \<Rightarrow> ref \<Rightarrow> val" where
  "get_IS_REACTIVE s r =
     (case heap s r of Some (ProxyOf t) \<Rightarrow> VBool True | _ \<Rightarrow> reflect_get s r IS_REACTIVE)"

definition get_RAW :: "st \<Rightarrow> ref \<Rightarrow> val" where
  "get_RAW s r =
     (case heap s r of Some (ProxyOf t) \<Rightarrow> VRef t | _ \<Rightarrow> reflect_get s r RAW)"

definition reactive :: "ref \<Rightarrow> st \<Rightarrow> ref \<times> st" where
  "reactive t s =
     (case reactiveMap s t of
        Some proxy \<Rightarrow> (proxy, s)
      | None \<Rightarrow>
          if truthy (get_IS_REACTIVE s t) then (t, s)
          else (let proxy = nextRef s
                in (proxy, s\<lparr>heap := (heap s)(proxy \<mapsto> ProxyOf t),
                              nextRef := Suc proxy,
                              reactiveMap := (reactiveMap s)(t \<mapsto> proxy),
                              rawMap := (rawMap s)(proxy \<mapsto> t)\<rparr>)))"

definition isReactive :: "st \<Rightarrow> val \<Rightarrow> bool" where
  "isReactive s v = (case v of VRef r \<Rightarrow> truthy (get_IS_REACTIVE s r) | _ \<Rightarrow> False)"

text \<open>
  \<open>markRaw\<close> defines the own property \<open>__b_isReactive\<close> with the value \<open>false\<close>; a proxy has no
  \<open>defineProperty\<close> trap, so on a proxy the property is defined on its target. The code
  defines it without \<open>writable\<close>, so a later write to it fails there; here it is a property
  like any other, and nothing below writes to it after \<open>markRaw\<close>.
\<close>

definition markRaw :: "ref \<Rightarrow> st \<Rightarrow> ref \<times> st" where
  "markRaw v s =
     (let holder = (case heap s v of Some (ProxyOf t) \<Rightarrow> t | _ \<Rightarrow> v)
      in (v, reflect_set holder IS_REACTIVE (VBool False) s))"

text \<open>The traps of the proxy handler; each gets the raw target.\<close>

definition get_trap :: "target \<Rightarrow> key \<Rightarrow> st \<Rightarrow> (val \<times> st) \<times> ev list" where
  "get_trap t k s =
     (if k = IS_REACTIVE then ((VBool True, s), [])
      else if k = RAW then ((VRef t, s), [])
      else (let result = reflect_get s t k;
                s1 = track t k s
            in (case result of
                  VRef r \<Rightarrow> (let (proxy, s2) = reactive r s1 in ((VRef proxy, s2), [Tracked t k]))
                | _ \<Rightarrow> ((result, s1), [Tracked t k]))))"

definition set_trap :: "caller \<Rightarrow> prog \<Rightarrow> target \<Rightarrow> key \<Rightarrow> val \<Rightarrow> st \<Rightarrow> res" where
  "set_trap call p t k v s =
     (let oldValue = reflect_get s t k;
          newValue = (case v of
                        VRef r \<Rightarrow> (let raw = get_RAW s r in if truthy raw then raw else v)
                      | _ \<Rightarrow> v);
          s1 = reflect_set t k newValue s
      in if oldValue \<noteq> newValue then trigger call p t k s1 else Some (s1, []))"

definition deleteProperty_trap :: "caller \<Rightarrow> prog \<Rightarrow> target \<Rightarrow> key \<Rightarrow> st \<Rightarrow> res" where
  "deleteProperty_trap call p t k s =
     (let hadKey = reflect_has s t k;
          s1 = reflect_deleteProperty t k s
      in if hadKey then trigger call p t k s1 else Some (s1, []))"

definition has_trap :: "target \<Rightarrow> key \<Rightarrow> st \<Rightarrow> (bool \<times> st) \<times> ev list" where
  "has_trap t k s = ((reflect_has (track t k s) t k, track t k s), [Tracked t k])"

definition ownKeys_trap :: "target \<Rightarrow> st \<Rightarrow> st \<times> ev list" where
  "ownKeys_trap t s =
     (let iterate = KSym (symbols s);
          s1 = s\<lparr>symbols := Suc (symbols s)\<rparr>
      in (track t iterate s1, [Tracked t iterate]))"

section \<open>effect.ts: effects, computed refs and the job queue\<close>

text \<open>\<open>queueJob\<close> (effect.ts:251-257); the scheduled flush is counted, not run.\<close>

definition value_key :: key where
  "value_key = KStr ''value''"

definition queueJob :: "eid \<Rightarrow> st \<Rightarrow> st" where
  "queueJob job s =
     (let s1 = s\<lparr>pendingJobs := set_add job (pendingJobs s)\<rparr>
      in if \<not> isFlushing s1 then s1\<lparr>isFlushing := True, microtasks := Suc (microtasks s1)\<rparr>
         else s1)"

text \<open>The getter \<open>value\<close> of \<open>ComputedRefImpl\<close> (effect.ts:96-103); it returns \<open>_value\<close>, the
  field \<open>cached\<close> of the state it leaves.\<close>

definition computed_value :: "caller \<Rightarrow> prog \<Rightarrow> target \<Rightarrow> st \<Rightarrow> res" where
  "computed_value call p c s =
     (let tracked = (activeEffect s \<noteq> None);
          s1 = (if tracked then track c value_key s else s);
          tr1 = (if tracked then [Tracked c value_key] else [])
      in if dirty s1 c
         then (case call (EffectFn (getter p c)) s1 of
                 None \<Rightarrow> None
               | Some (s2, tr2) \<Rightarrow>
                   Some (s2\<lparr>cached := (cached s2)(c \<mapsto> retval p (getter p c) (runs s1 (getter p c))),
                            dirty := (dirty s2)(c := False)\<rparr>, tr1 @ tr2))
         else Some (s1, tr1))"

text \<open>One call made by user code. An operation on an object that is not a proxy goes to the
  object itself, untracked.\<close>

definition step :: "caller \<Rightarrow> prog \<Rightarrow> cmd \<Rightarrow> st \<Rightarrow> res" where
  "step call p c s =
     (case c of
        Track t k \<Rightarrow> Some (track t k s, [Tracked t k])
      | Trigger t k \<Rightarrow> trigger call p t k s
      | Cleanup e \<Rightarrow> Some (cleanup e s, [Cleaned e])
      | Call e \<Rightarrow> call (EffectFn e) s
      | Value x \<Rightarrow> computed_value call p x s
      | QueueJob e \<Rightarrow> Some (queueJob e s, [])
      | PGet r k \<Rightarrow>
          (case heap s r of
             Some (ProxyOf t) \<Rightarrow> (let ((v, s1), tr) = get_trap t k s in Some (s1, tr))
           | _ \<Rightarrow> Some (s, []))
      | PSet r k v \<Rightarrow>
          (case heap s r of
             Some (ProxyOf t) \<Rightarrow> set_trap call p t k v s
           | Some (Plain ps) \<Rightarrow> Some (reflect_set r k v s, [])
           | None \<Rightarrow> Some (s, []))
      | PHas r k \<Rightarrow>
          (case heap s r of
             Some (ProxyOf t) \<Rightarrow> (let ((b, s1), tr) = has_trap t k s in Some (s1, tr))
           | _ \<Rightarrow> Some (s, []))
      | PDelete r k \<Rightarrow>
          (case heap s r of
             Some (ProxyOf t) \<Rightarrow> deleteProperty_trap call p t k s
           | Some (Plain ps) \<Rightarrow> Some (reflect_deleteProperty r k s, [])
           | None \<Rightarrow> Some (s, []))
      | POwnKeys r \<Rightarrow>
          (case heap s r of
             Some (ProxyOf t) \<Rightarrow> Some (ownKeys_trap t s)
           | _ \<Rightarrow> Some (s, [])))"

definition exec :: "caller \<Rightarrow> prog \<Rightarrow> cmd list \<Rightarrow> st \<Rightarrow> res" where
  "exec call p cs s = forEach (step call p) cs s"

text \<open>
  The function \<open>effectFn\<close> built by \<open>effect(fn, options)\<close> (effect.ts:58-66): cleanup, push,
  run \<open>fn\<close>, pop. Counting the run in \<open>runs\<close> stands for the call of \<open>fn\<close>.
\<close>

definition effectFn :: "caller \<Rightarrow> prog \<Rightarrow> eid \<Rightarrow> st \<Rightarrow> res" where
  "effectFn call p e s =
     (let s1 = pushEffect e (cleanup e s);
          body = fn p e (runs s1 e);
          s2 = s1\<lparr>runs := (runs s1)(e := Suc (runs s1 e))\<rparr>
      in (case exec call p body s2 of
            None \<Rightarrow> None
          | Some (s3, tr) \<Rightarrow> Some (popEffect s3, [Ran e tr])))"

text \<open>
  The schedulers: the one \<open>ComputedRefImpl\<close> gives its effect (effect.ts:87-92), \<open>queueJob\<close>
  itself, and a user function. A scheduler is called without a push: what it reads is charged
  to the effect that is active around it.
\<close>

definition runScheduler :: "caller \<Rightarrow> prog \<Rightarrow> eid \<Rightarrow> st \<Rightarrow> res" where
  "runScheduler call p e s =
     (case scheduler p e of
        None \<Rightarrow> None
      | Some (ComputedSched c) \<Rightarrow>
          (if \<not> dirty s c
           then (case trigger call p c value_key (s\<lparr>dirty := (dirty s)(c := True)\<rparr>) of
                   None \<Rightarrow> None
                 | Some (s1, tr) \<Rightarrow> Some (s1, [Scheduled e tr]))
           else Some (s, [Scheduled e []]))
      | Some QueueJobSched \<Rightarrow> Some (queueJob e s, [Scheduled e []])
      | Some (UserSched cs) \<Rightarrow>
          (case exec call p cs s of
             None \<Rightarrow> None
           | Some (s1, tr) \<Rightarrow> Some (s1, [Scheduled e tr])))"

text \<open>
  Calls of user functions nest without bound, so the depth of nesting is limited by a
  counter: \<open>invoke n\<close> follows calls up to depth \<open>n\<close> and is \<open>None\<close> beyond it.
\<close>

primrec invoke :: "nat \<Rightarrow> prog \<Rightarrow> fnref \<Rightarrow> st \<Rightarrow> res" where
  "invoke 0 p f s = None"
| "invoke (Suc n) p f s =
     (case f of
        EffectFn e \<Rightarrow> effectFn (invoke n p) p e s
      | SchedulerOf e \<Rightarrow> runScheduler (invoke n p) p e s)"

text \<open>\<open>effect(fn, options)\<close> (effect.ts:57-76) for a fresh effect function \<open>e\<close>, whose \<open>deps\<close> is
  empty: it runs at once unless lazy.\<close>

definition effect :: "caller \<Rightarrow> prog \<Rightarrow> eid \<Rightarrow> st \<Rightarrow> res" where
  "effect call p e s = (if lazy p e then Some (s, []) else call (EffectFn e) s)"

section \<open>Reading call trees\<close>

text \<open>
  The calls a computation made itself, in order: \<open>(e, False)\<close> for a call of the effect
  function \<open>e\<close>, \<open>(e, True)\<close> for a call of the scheduler of \<open>e\<close>. Calls made inside
  those calls are not listed.
\<close>

fun called :: "ev \<Rightarrow> (eid \<times> bool) list" where
  "called (Ran e tr) = [(e, False)]"
| "called (Scheduled e tr) = [(e, True)]"
| "called (Tracked t k) = []"
| "called (Cleaned e) = []"

definition handled :: "ev list \<Rightarrow> (eid \<times> bool) list" where
  "handled tr = concat (map called tr)"

definition invoked :: "ev list \<Rightarrow> eid list" where
  "invoked tr = map fst (handled tr)"

text \<open>
  The reads that are charged to the effect that is active while the events happen: calls of
  \<open>track\<close> made directly or from a scheduler (a scheduler runs without a push), not those
  made inside a nested effect run.
\<close>

fun own_reads :: "ev \<Rightarrow> dep list" where
  "own_reads (Tracked t k) = [(t, k)]"
| "own_reads (Cleaned e) = []"
| "own_reads (Ran e tr) = []"
| "own_reads (Scheduled e tr) = concat (map own_reads tr)"

definition reads_of :: "ev list \<Rightarrow> dep list" where
  "reads_of tr = concat (map own_reads tr)"

text \<open>\<open>disturbs E x\<close>: somewhere in event \<open>x\<close> the effect function \<open>E\<close> is called or \<open>E\<close> is
  cleaned up by user code.\<close>

fun disturbs :: "eid \<Rightarrow> ev \<Rightarrow> bool" where
  "disturbs E (Tracked t k) = False"
| "disturbs E (Cleaned e) = (e = E)"
| "disturbs E (Ran e tr) = (e = E \<or> list_ex (disturbs E) tr)"
| "disturbs E (Scheduled e tr) = list_ex (disturbs E) tr"

text \<open>\<open>ran_inside e x\<close>: the effect function \<open>e\<close> is called somewhere in \<open>x\<close>;
  \<open>reentered e x\<close>: it is called while a call of it is still running;
  \<open>scheduled_inside e x\<close>: the scheduler of \<open>e\<close> is called somewhere in \<open>x\<close>.\<close>

fun ran_inside :: "eid \<Rightarrow> ev \<Rightarrow> bool" where
  "ran_inside e (Tracked t k) = False"
| "ran_inside e (Cleaned e') = False"
| "ran_inside e (Ran e' tr) = (e' = e \<or> list_ex (ran_inside e) tr)"
| "ran_inside e (Scheduled e' tr) = list_ex (ran_inside e) tr"

fun reentered :: "eid \<Rightarrow> ev \<Rightarrow> bool" where
  "reentered e (Tracked t k) = False"
| "reentered e (Cleaned e') = False"
| "reentered e (Ran e' tr) = ((e' = e \<and> list_ex (ran_inside e) tr) \<or> list_ex (reentered e) tr)"
| "reentered e (Scheduled e' tr) = list_ex (reentered e) tr"


section \<open>Example programs\<close>

text \<open>Every effect reads the ref \<open>7\<close>: \<open>effect(() => { x.value })\<close>.\<close>

definition readers :: prog where
  "readers = \<lparr> fn = (\<lambda>e n. [Track 7 value_key]), scheduler = (\<lambda>_. None),
     lazy = (\<lambda>_. False), getter = (\<lambda>_. 0), retval = (\<lambda>_ _. VUndefined) \<rparr>"

text \<open>
  Two effects that read and write the same ref \<open>7\<close>; effect \<open>0\<close> writes in its first run
  only: \<open>effect(() => { if (x.value < limit) x.value++ })\<close>.
\<close>

definition pingpong :: prog where
  "pingpong = \<lparr> fn = (\<lambda>e n. if e = 0 \<and> n \<noteq> 0 then [Track 7 value_key]
                            else [Track 7 value_key, Trigger 7 value_key]),
     scheduler = (\<lambda>_. None), lazy = (\<lambda>_. False), getter = (\<lambda>_. 0),
     retval = (\<lambda>_ _. VUndefined) \<rparr>"

text \<open>The state after two effects that read the ref \<open>7\<close> have been created and run.\<close>

definition two_readers :: st where
  "two_readers = fst (the (exec (invoke 1 readers) readers [Call 0, Call 1] initial))"

text \<open>An effect that reads the ref \<open>7\<close> in its first run and the ref \<open>8\<close> afterwards:
  \<open>effect(() => { first ? a.value : b.value })\<close>.\<close>

definition switching :: prog where
  "switching = \<lparr> fn = (\<lambda>e n. if n = 0 then [Track 7 value_key] else [Track 8 value_key]),
     scheduler = (\<lambda>_. None), lazy = (\<lambda>_. False), getter = (\<lambda>_. 0),
     retval = (\<lambda>_ _. VUndefined) \<rparr>"

definition switched_once :: st where
  "switched_once = fst (the (invoke 1 switching (EffectFn 0) initial))"

text \<open>
  Effect \<open>0\<close> reads the ref \<open>1\<close>, writes the ref \<open>2\<close> and reads the ref \<open>3\<close> in its first run, and
  reads only the ref \<open>4\<close> in later runs; effect \<open>1\<close> reads the ref \<open>2\<close> and, from its second
  run on, writes the ref \<open>1\<close>.
\<close>

definition reentrant :: prog where
  "reentrant = \<lparr> fn = (\<lambda>e n.
        if e = 0 then (if n = 0 then [Track 1 value_key, Trigger 2 value_key, Track 3 value_key]
                       else [Track 4 value_key])
        else (if n = 0 then [Track 2 value_key] else [Track 2 value_key, Trigger 1 value_key])),
     scheduler = (\<lambda>_. None), lazy = (\<lambda>_. False), getter = (\<lambda>_. 0),
     retval = (\<lambda>_ _. VUndefined) \<rparr>"

section \<open>Invariants of the tracker state\<close>

text \<open>
  \<open>top_ok\<close>: the active effect is the top of the effect stack. \<open>consistent\<close>: an effect is
  in a dependency set exactly when that set is in its \<open>deps\<close>, and the sets hold no
  duplicates. \<open>keeps E s s' tr\<close> relates the states before and after a computation with
  call tree \<open>tr\<close>: the effect stack is restored and \<open>E\<close> has gained exactly the
  subscriptions for the reads charged to it.
\<close>

definition top_ok :: "st \<Rightarrow> bool" where
  "top_ok s \<longleftrightarrow>
     activeEffect s = (if effectStack s = [] then None else Some (last (effectStack s)))"

definition linked :: "st \<Rightarrow> bool" where
  "linked s \<longleftrightarrow> (\<forall>t k e. e \<in> set (subscribers s t k) \<longrightarrow> (t, k) \<in> set (deps s e))"

definition keeps :: "eid \<Rightarrow> st \<Rightarrow> st \<Rightarrow> ev list \<Rightarrow> bool" where
  "keeps E s s' tr \<longleftrightarrow>
     activeEffect s' = activeEffect s \<and> effectStack s' = effectStack s \<and>
     (\<forall>t k. E \<in> set (subscribers s' t k) \<longleftrightarrow>
        E \<in> set (subscribers s t k) \<or> (activeEffect s = Some E \<and> (t, k) \<in> set (reads_of tr)))"

definition framed :: "eid \<Rightarrow> ('a \<Rightarrow> st \<Rightarrow> res) \<Rightarrow> bool" where
  "framed E f \<longleftrightarrow>
     (\<forall>x s s' tr. f x s = Some (s', tr) \<longrightarrow> top_ok s \<longrightarrow> \<not> list_ex (disturbs E) tr
         \<longrightarrow> keeps E s s' tr)"

definition consistent :: "st \<Rightarrow> bool" where
  "consistent s \<longleftrightarrow>
     (\<forall>t k e. e \<in> set (subscribers s t k) \<longleftrightarrow> (t, k) \<in> set (deps s e)) \<and>
     (\<forall>t k. distinct (subscribers s t k)) \<and> (\<forall>e. distinct (deps s e))"

definition wf :: "st \<Rightarrow> bool" where
  "wf s \<longleftrightarrow> top_ok s \<and> consistent s"

definition preserves :: "(st \<Rightarrow> bool) \<Rightarrow> ('a \<Rightarrow> st \<Rightarrow> res) \<Rightarrow> bool" where
  "preserves I f \<longleftrightarrow> (\<forall>x s s' tr. f x s = Some (s', tr) \<longrightarrow> I s \<longrightarrow> I s')"

text \<open>\<open>stable I\<close>: every primitive state change keeps \<open>I\<close>. \<open>queue_grows q\<close>: the job
  queue holds no duplicates and extends \<open>q\<close> at its end.\<close>

definition stable :: "(st \<Rightarrow> bool) \<Rightarrow> bool" where
  "stable I \<longleftrightarrow>
     (\<forall>s t k. I s \<longrightarrow> I (track t k s)) \<and>
     (\<forall>s e. I s \<longrightarrow> I (cleanup e s)) \<and>
     (\<forall>s e. I s \<longrightarrow> I (queueJob e s)) \<and>
     (\<forall>s e. I s \<longrightarrow> I (pushEffect e s)) \<and>
     (\<forall>s. I s \<longrightarrow> I (popEffect s)) \<and>
     (\<forall>s f. I s \<longrightarrow> I (s\<lparr>runs := f\<rparr>)) \<and>
     (\<forall>s f. I s \<longrightarrow> I (s\<lparr>dirty := f\<rparr>)) \<and>
     (\<forall>s f g. I s \<longrightarrow> I (s\<lparr>cached := f, dirty := g\<rparr>)) \<and>
     (\<forall>s n. I s \<longrightarrow> I (s\<lparr>symbols := n\<rparr>)) \<and>
     (\<forall>s r k v. I s \<longrightarrow> I (reflect_set r k v s)) \<and>
     (\<forall>s r k. I s \<longrightarrow> I (reflect_deleteProperty r k s)) \<and>
     (\<forall>s r. I s \<longrightarrow> I (snd (reactive r s)))"

definition queue_grows :: "eid list \<Rightarrow> st \<Rightarrow> bool" where
  "queue_grows q s \<longleftrightarrow> (\<exists>ys. pendingJobs s = q @ ys) \<and> distinct (pendingJobs s)"

text \<open>\<open>extends f g\<close>: wherever \<open>f\<close> returns, \<open>g\<close> returns the same.\<close>

definition extends :: "('a \<Rightarrow> st \<Rightarrow> res) \<Rightarrow> ('a \<Rightarrow> st \<Rightarrow> res) \<Rightarrow> bool" where
  "extends f g \<longleftrightarrow> (\<forall>x s r. f x s = Some r \<longrightarrow> g x s = Some r)"

section \<open>Notions for computed refs\<close>

text \<open>
  \<open>is_read\<close>: the call is a plain reactive read. \<open>computed_setup p c e\<close>: \<open>c\<close> is a computed
  ref built by \<open>computed(getter)\<close>, \<open>e\<close> is its effect, with the scheduler the constructor
  gives it, and the getter only reads reactive state. \<open>only e s t k\<close>: no effect other than
  \<open>e\<close> is registered for \<open>(t, k)\<close>.
\<close>

fun is_read :: "cmd \<Rightarrow> bool" where
  "is_read (Track t k) = True"
| "is_read _ = False"

fun read_event :: "cmd \<Rightarrow> ev list" where
  "read_event (Track t k) = [Tracked t k]"
| "read_event _ = []"

definition only :: "eid \<Rightarrow> st \<Rightarrow> target \<Rightarrow> key \<Rightarrow> bool" where
  "only e s t k \<longleftrightarrow> set (subscribers s t k) \<subseteq> {e}"

definition computed_setup :: "prog \<Rightarrow> target \<Rightarrow> eid \<Rightarrow> bool" where
  "computed_setup p c e \<longleftrightarrow>
     getter p c = e \<and> scheduler p e = Some (ComputedSched c) \<and> (\<forall>n. list_all is_read (fn p e n))"









section \<open>effect.ts: flushing the job queue\<close>

text \<open>
  \<open>pendingJobs.forEach(job => job())\<close> walks the live set: an element added while the walk
  is going on is visited too, at its place at the end. Nothing is deleted during the walk, so
  the walk is a scan by index over the list as it is at each step; the loop counter \<open>m\<close> bounds
  the number of jobs one flush may run. \<open>flushJobs\<close> then clears the set and the flag.
\<close>

fun flushLoop :: "nat \<Rightarrow> caller \<Rightarrow> nat \<Rightarrow> st \<Rightarrow> res" where
  "flushLoop 0 call i s = (if i < length (pendingJobs s) then None else Some (s, []))"
| "flushLoop (Suc m) call i s =
     (if i < length (pendingJobs s)
      then (case call (EffectFn (pendingJobs s ! i)) s of
              None \<Rightarrow> None
            | Some (s1, tr1) \<Rightarrow>
                (case flushLoop m call (Suc i) s1 of
                   None \<Rightarrow> None
                 | Some (s2, tr2) \<Rightarrow> Some (s2, tr1 @ tr2)))
      else Some (s, []))"

definition flushJobs :: "nat \<Rightarrow> caller \<Rightarrow> st \<Rightarrow> res" where
  "flushJobs m call s =
     (case flushLoop m call 0 s of
        None \<Rightarrow> None
      | Some (s1, tr) \<Rightarrow> Some (s1\<lparr>pendingJobs := [], isFlushing := False\<rparr>, tr))"

text \<open>Job \<open>0\<close> queues job \<open>1\<close>, job \<open>1\<close> queues job \<open>0\<close> again.\<close>

definition chain :: prog where
  "chain = \<lparr> fn = (\<lambda>e n. if e = 0 then [QueueJob 1] else [QueueJob 0]),
     scheduler = (\<lambda>_. None), lazy = (\<lambda>_. True), getter = (\<lambda>_. 0),
     retval = (\<lambda>_ _. VUndefined) \<rparr>"

section \<open>Example objects\<close>

text \<open>The plain object \<open>{ a: 1 }\<close> at reference \<open>0\<close>, and the state after \<open>reactive\<close> wrapped it
  (the proxy is reference \<open>1\<close>).\<close>

definition one_object :: st where
  "one_object = initial\<lparr>heap := (\<lambda>_. None)(0 \<mapsto> Plain ((\<lambda>_. None)(KStr ''a'' \<mapsto> VNum 1))),
                        nextRef := 1\<rparr>"

definition one_proxy :: st where
  "one_proxy = snd (reactive 0 one_object)"

text \<open>\<open>effect(() => Object.keys(state))\<close> and \<open>effect(() => 'b' in state)\<close> on the proxy \<open>1\<close>.\<close>

definition lister :: prog where
  "lister = \<lparr> fn = (\<lambda>e n. if e = 0 then [POwnKeys 1] else [PHas 1 (KStr ''b'')]),
     scheduler = (\<lambda>_. None), lazy = (\<lambda>_. False), getter = (\<lambda>_. 0),
     retval = (\<lambda>_ _. VUndefined) \<rparr>"

section \<open>vnode.ts: virtual nodes\<close>

text \<open>
  A child of a virtual node is a virtual node, a primitive (string, number or boolean, kept
  as the text \<open>String(child)\<close>), \<open>null\<close> or \<open>undefined\<close>. Of a component instance the fields
  read by \<open>unmount\<close> are kept; \<open>props\<close> are not modelled. DOM nodes, lifecycle callbacks and
  component functions are identified by natural numbers.
\<close>

type_synonym node = nat
type_synonym hook = nat

datatype vtype = Tag string | Component nat | Fragment | Text

datatype vkey = KeyStr string | KeyNum int

datatype child = CNode vnode | CPrim string | CNull | CUndefined
and vnode = VNode (vtype: vtype) (children: "child list") (key: "vkey option")
                  (el: "node option") (component: "cinstance option") (anchor: "node option")
and cinstance = Instance (subTree: "vnode option") (unmounted: "hook list") (update: "eid option")

text \<open>\<open>typeof child === 'object'\<close> holds of virtual nodes and of \<open>null\<close>; \<open>child == null\<close> of
  \<open>null\<close> and \<open>undefined\<close>.\<close>

fun typeof_object :: "child \<Rightarrow> bool" where
  "typeof_object (CNode v) = True"
| "typeof_object CNull = True"
| "typeof_object (CPrim s) = False"
| "typeof_object CUndefined = False"

fun nullish :: "child \<Rightarrow> bool" where
  "nullish CNull = True"
| "nullish CUndefined = True"
| "nullish (CNode v) = False"
| "nullish (CPrim s) = False"

text \<open>\<open>String(child ?? '')\<close>\<close>

fun text_or_empty :: "child \<Rightarrow> string" where
  "text_or_empty (CPrim s) = s"
| "text_or_empty c = []"

section \<open>renderer.ts: the calls a patch makes\<close>

text \<open>
  The renderer (src/unnamed/part_004) works on the DOM and calls itself recursively. A
  function of the renderer is modelled by the list of calls it makes, in order: calls of
  \<open>unmount\<close>, \<open>mount\<close> and \<open>patch\<close> on given virtual nodes and the DOM operations of the function
  itself. \<open>SetFirstTextNode t\<close> sets the text of the first text node of the container, if it
  has one; \<open>RemoveChildrenBefore a\<close> removes the children of the container up to the anchor;
  \<open>PatchProps\<close>, \<open>PatchChildrenOf\<close> and \<open>UpdateIfPropsChanged\<close> stand for the property loops of
  \<open>patchElement\<close>, a call of \<open>patchChildren\<close>, and the comparison and update in
  \<open>patchComponent\<close>.
\<close>

datatype call =
    UnmountOf vnode
  | MountOf vnode
  | PatchOf vnode vnode
  | SetFirstTextNode string
  | RemoveChildrenBefore "node option"
  | InsertText string
  | SetTextContent "node option" string
  | PatchProps vnode vnode
  | PatchChildrenOf vnode vnode
  | UpdateIfPropsChanged vnode vnode

text \<open>A JavaScript \<open>Map\<close>: \<open>set\<close> overwrites the value of a present key in place and appends an
  absent one; \<open>forEach\<close> goes in insertion order.\<close>

fun map_set :: "'k \<Rightarrow> 'v \<Rightarrow> ('k \<times> 'v) list \<Rightarrow> ('k \<times> 'v) list" where
  "map_set k v [] = [(k, v)]"
| "map_set k v ((k', v') # m) = (if k' = k then (k, v) # m else (k', v') # map_set k v m)"

definition map_delete :: "'k \<Rightarrow> ('k \<times> 'v) list \<Rightarrow> ('k \<times> 'v) list" where
  "map_delete k m = filter (\<lambda>(k', v). k' \<noteq> k) m"

text \<open>The first loop of the keyed part of \<open>patchChildren\<close> (part_004:392-404): old children go
  into the map \<open>oldKeyed\<close> or the array \<open>oldUnkeyed\<close>.\<close>

fun partition_old :: "child list \<Rightarrow> (vkey \<times> vnode) list \<Rightarrow> vnode list
                        \<Rightarrow> (vkey \<times> vnode) list \<times> vnode list" where
  "partition_old [] oldKeyed oldUnkeyed = (oldKeyed, oldUnkeyed)"
| "partition_old (CNode v # cs) oldKeyed oldUnkeyed =
     (case key v of
        Some k \<Rightarrow> partition_old cs (map_set k v oldKeyed) oldUnkeyed
      | None \<Rightarrow> partition_old cs oldKeyed (oldUnkeyed @ [v]))"
| "partition_old (c # cs) oldKeyed oldUnkeyed = partition_old cs oldKeyed oldUnkeyed"

text \<open>The second loop (part_004:406-430): each new child is patched against the old child with
  its key, or against the next unkeyed old child, or mounted. The result is the calls made,
  what is left in \<open>oldKeyed\<close>, and \<open>unkeyedIndex\<close>.\<close>

fun match_new :: "child list \<Rightarrow> (vkey \<times> vnode) list \<Rightarrow> vnode list \<Rightarrow> nat
                    \<Rightarrow> call list \<times> (vkey \<times> vnode) list \<times> nat" where
  "match_new [] oldKeyed oldUnkeyed unkeyedIndex = ([], oldKeyed, unkeyedIndex)"
| "match_new (CNode newChild # cs) oldKeyed oldUnkeyed unkeyedIndex =
     (case key newChild of
        Some k \<Rightarrow>
          (case map_of oldKeyed k of
             Some oldChild \<Rightarrow>
               (let (calls, rest, i) = match_new cs (map_delete k oldKeyed) oldUnkeyed unkeyedIndex
                in (PatchOf oldChild newChild # calls, rest, i))
           | None \<Rightarrow>
               (let (calls, rest, i) = match_new cs oldKeyed oldUnkeyed unkeyedIndex
                in (MountOf newChild # calls, rest, i)))
      | None \<Rightarrow>
          (let (calls, rest, i) = match_new cs oldKeyed oldUnkeyed (Suc unkeyedIndex)
           in ((if unkeyedIndex < length oldUnkeyed
                then PatchOf (oldUnkeyed ! unkeyedIndex) newChild
                else MountOf newChild) # calls, rest, i)))"
| "match_new (c # cs) oldKeyed oldUnkeyed unkeyedIndex =
     match_new cs oldKeyed oldUnkeyed unkeyedIndex"

fun unmount_old :: "child \<Rightarrow> call list" where
  "unmount_old (CNode v) = [UnmountOf v]"
| "unmount_old c = []"

fun mount_new :: "child \<Rightarrow> call list" where
  "mount_new (CNode v) = [MountOf v]"
| "mount_new (CPrim s) = [InsertText s]"
| "mount_new c = []"

text \<open>\<open>patchChildren\<close> (part_004:340-437): the text shortcut, the teardown of mixed children, and
  the keyed pass with its two closing unmount loops.\<close>

definition patchChildren :: "vnode \<Rightarrow> vnode \<Rightarrow> call list" where
  "patchChildren oldVNode newVNode =
     (let oldChildren = children oldVNode;
          newChildren = children newVNode
      in if length oldChildren = 1 \<and> length newChildren = 1 \<and>
            \<not> typeof_object (hd oldChildren) \<and> \<not> typeof_object (hd newChildren)
         then (let oldText = text_or_empty (hd oldChildren);
                   newText = text_or_empty (hd newChildren)
               in if oldText \<noteq> newText then [SetFirstTextNode newText] else [])
         else if \<not> (list_all (\<lambda>c. nullish c \<or> typeof_object c) oldChildren \<and>
                    list_all (\<lambda>c. nullish c \<or> typeof_object c) newChildren)
         then concat (map unmount_old oldChildren) @ [RemoveChildrenBefore (anchor newVNode)]
              @ concat (map mount_new newChildren)
         else (let (oldKeyed, oldUnkeyed) = partition_old oldChildren [] [];
                   (calls, rest, unkeyedIndex) = match_new newChildren oldKeyed oldUnkeyed 0
               in calls @ map (\<lambda>(k, v). UnmountOf v) rest
                  @ map UnmountOf (drop unkeyedIndex oldUnkeyed)))"

text \<open>\<open>patch\<close> (part_004:225-258) and the four functions it hands over to (part_004:260-338);
  each returns the new virtual node with the fields it has assigned.\<close>

definition text_of :: "vnode \<Rightarrow> string option" where
  "text_of v = (case children v of CPrim s # cs \<Rightarrow> Some s | _ \<Rightarrow> None)"

definition set_el :: "node option \<Rightarrow> vnode \<Rightarrow> vnode" where
  "set_el n v = VNode (vtype v) (children v) (key v) n (component v) (anchor v)"

definition set_anchor :: "node option \<Rightarrow> vnode \<Rightarrow> vnode" where
  "set_anchor n v = VNode (vtype v) (children v) (key v) (el v) (component v) n"

definition set_component :: "cinstance option \<Rightarrow> vnode \<Rightarrow> vnode" where
  "set_component i v = VNode (vtype v) (children v) (key v) (el v) i (anchor v)"

definition patchText :: "vnode \<Rightarrow> vnode \<Rightarrow> vnode \<times> call list" where
  "patchText oldVNode newVNode =
     (let new1 = set_el (el oldVNode) newVNode
      in (new1, if text_of oldVNode \<noteq> text_of new1
                then [SetTextContent (el oldVNode) (case text_of new1 of Some s \<Rightarrow> s | None \<Rightarrow> [])]
                else []))"

definition patchElement :: "vnode \<Rightarrow> vnode \<Rightarrow> vnode \<times> call list" where
  "patchElement oldVNode newVNode =
     (let new1 = set_el (el oldVNode) newVNode
      in (new1, [PatchProps oldVNode new1, PatchChildrenOf oldVNode new1]))"

definition patchFragment :: "vnode \<Rightarrow> vnode \<Rightarrow> vnode \<times> call list" where
  "patchFragment oldVNode newVNode =
     (let new1 = set_anchor (anchor oldVNode) newVNode
      in (new1, [PatchChildrenOf oldVNode new1]))"

definition patchComponent :: "vnode \<Rightarrow> vnode \<Rightarrow> vnode \<times> call list" where
  "patchComponent oldVNode newVNode =
     (let new1 = set_component (component oldVNode) newVNode
      in (new1, [UpdateIfPropsChanged oldVNode new1]))"

definition patch :: "vnode \<Rightarrow> vnode \<Rightarrow> vnode \<times> call list" where
  "patch oldVNode newVNode =
     (if vtype oldVNode \<noteq> vtype newVNode then (newVNode, [UnmountOf oldVNode, MountOf newVNode])
      else (let new1 = set_el (el oldVNode) newVNode
            in case vtype new1 of
                 Text \<Rightarrow> patchText oldVNode new1
               | Fragment \<Rightarrow> patchFragment oldVNode new1
               | Component f \<Rightarrow> patchComponent oldVNode new1
               | Tag t \<Rightarrow> patchElement oldVNode new1))"

text \<open>\<open>keyed_list\<close>: every node has a key and no key occurs twice. \<open>old_with_key os n\<close>: the
  old node that carries the key of \<open>n\<close>.\<close>

definition keyed_list :: "vnode list \<Rightarrow> bool" where
  "keyed_list vs \<longleftrightarrow> list_all (\<lambda>v. key v \<noteq> None) vs \<and> distinct (map key vs)"

definition old_with_key :: "vnode list \<Rightarrow> vnode \<Rightarrow> vnode option" where
  "old_with_key os n = find (\<lambda>oldChild. key oldChild = key n) os"

section \<open>renderer.ts: unmount\<close>

text \<open>
  \<open>unmount\<close> (part_004:516-551) and \<open>invokeLifecycleHooks\<close> (lifecycle.js, in
  packages/runtime/dist/hooks.d.ts:204-213). \<open>unmount\<close> is given by what it does, in order: it calls lifecycle callbacks (each inside its
  own \<open>try\<close>, so every callback of the list is called), removes DOM nodes from their parents
  (\<open>RemoveChild n\<close>: remove \<open>n\<close> if it has a parent) and calls \<open>cleanup\<close> of the core on update
  effects.
\<close>

datatype action = InvokeHook hook | RemoveChild node | CleanupEffect eid

definition invokeLifecycleHooks :: "hook list \<Rightarrow> action list" where
  "invokeLifecycleHooks hooks = map InvokeHook hooks"

fun remove_node :: "node option \<Rightarrow> action list" where
  "remove_node None = []"
| "remove_node (Some n) = [RemoveChild n]"

fun unmount :: "vnode \<Rightarrow> action list"
and unmount_children :: "child list \<Rightarrow> action list"
and unmount_instance :: "cinstance \<Rightarrow> action list" where
  "unmount (VNode ty cs k e ci a) =
     (case ty of
        Component f \<Rightarrow>
          (case ci of
             Some inst \<Rightarrow> unmount_instance inst
           | None \<Rightarrow> unmount_children cs @ remove_node e)
      | Fragment \<Rightarrow> unmount_children cs @ remove_node a
      | _ \<Rightarrow> unmount_children cs @ remove_node e)"
| "unmount_children [] = []"
| "unmount_children (CNode v # cs) = unmount v @ unmount_children cs"
| "unmount_children (c # cs) = unmount_children cs"
| "unmount_instance (Instance st hooks upd) =
     invokeLifecycleHooks hooks
     @ (case st of Some t \<Rightarrow> unmount t | None \<Rightarrow> [])
     @ (case upd of Some u \<Rightarrow> [CleanupEffect u] | None \<Rightarrow> [])"

text \<open>What an action does to the state of the reactivity core; lifecycle callbacks and DOM
  operations are taken not to touch it.\<close>

fun perform :: "action \<Rightarrow> st \<Rightarrow> st" where
  "perform (CleanupEffect u) s = cleanup u s"
| "perform (InvokeHook h) s = s"
| "perform (RemoveChild n) s = s"

section \<open>renderer.ts: render and createApp\<close>

text \<open>
  \<open>render\<close> (part_004:48-62) and the methods \<open>mount\<close> and \<open>unmount\<close> of the object built by
  \<open>createApp\<close> (part_004:600-655). \<open>committed d c\<close> is the property \<open>_vnode\<close> of the container \<open>c\<close>; \<open>querySelector\<close> is
  \<open>document.querySelector\<close>. An application keeps the variables \<open>isMounted\<close>, \<open>rootVNode\<close> and
  \<open>container\<close> of the closure built by \<open>createApp\<close>. A thrown error leaves the assignments made
  before it in place, so \<open>mount\<close> returns the error (if any) together with the state.
\<close>

record dom =
  querySelector :: "string \<Rightarrow> node option"
  committed :: "node \<Rightarrow> vnode option"

record app =
  isMounted :: bool
  rootVNode :: "vnode option"
  container :: "node option"



definition render :: "vnode option \<Rightarrow> node \<Rightarrow> dom \<Rightarrow> dom \<times> call list" where
  "render vnode c d =
     (let oldVNode = committed d c;
          calls = (case vnode of
                     None \<Rightarrow> (case oldVNode of Some old \<Rightarrow> [UnmountOf old] | None \<Rightarrow> [])
                   | Some v \<Rightarrow> (case oldVNode of Some old \<Rightarrow> [PatchOf old v] | None \<Rightarrow> [MountOf v]))
      in (d\<lparr>committed := (committed d)(c := vnode)\<rparr>, calls))"




definition createApp_unmount :: "app \<times> dom \<Rightarrow> (app \<times> dom) \<times> call list" where
  "createApp_unmount ad =
     (let (a, d) = ad
      in case (isMounted a, container a) of
           (True, Some c) \<Rightarrow>
             (let (d1, calls) = render None c d
              in ((a\<lparr>isMounted := False, rootVNode := None\<rparr>, d1), calls))
         | _ \<Rightarrow> ((a, d), []))"



text \<open>List items as in \<open><ul>{items.map(i => <li key={i}/>)}</ul>\<close>: a keyed and an unkeyed
  item with a given DOM node, and a list element holding items.\<close>

definition li :: "string \<Rightarrow> node option \<Rightarrow> vnode" where
  "li k e = VNode (Tag ''li'') [] (Some (KeyStr k)) e None None"

definition item :: "node option \<Rightarrow> vnode" where
  "item e = VNode (Tag ''li'') [] None e None None"

definition ul :: "vnode list \<Rightarrow> vnode" where
  "ul vs = VNode (Tag ''ul'') (map CNode vs) None (Some 0) None None"

text \<open>A mounted component (instance with two unmount callbacks and update effect \<open>0\<close>) whose
  subtree is a \<open>div\<close> holding a second mounted component (one callback, update effect \<open>1\<close>).\<close>

definition inner_widget :: vnode where
  "inner_widget = VNode (Component 2) [] None None
     (Some (Instance (Some (VNode Text [CPrim ''hi''] None (Some 4) None None)) [12] (Some 1)))
     None"

definition widget_instance :: cinstance where
  "widget_instance = Instance
     (Some (VNode (Tag ''div'') [CNode inner_widget, CPrim ''x''] None (Some 3) None None))
     [10, 11] (Some 0)"

definition widget :: vnode where
  "widget = VNode (Component 1) [] None None (Some widget_instance) None"

text \<open>A keyed element with a given tag, as in \<open>cond ? <div key="a"/> : <span key="a"/>\<close>.\<close>

definition tagged :: "string \<Rightarrow> string \<Rightarrow> node option \<Rightarrow> vnode" where
  "tagged t k e = VNode (Tag t) [] (Some (KeyStr k)) e None None"

section \<open>Facts about the primitives\<close>

lemma subscribers_update [simp]:
  "subscribers (s\<lparr>activeEffect := a\<rparr>) = subscribers s"
  "subscribers (s\<lparr>effectStack := b\<rparr>) = subscribers s"
  "subscribers (s\<lparr>deps := c\<rparr>) = subscribers s"
  "subscribers (s\<lparr>runs := d\<rparr>) = subscribers s"
  "subscribers (s\<lparr>dirty := f\<rparr>) = subscribers s"
  "subscribers (s\<lparr>cached := g\<rparr>) = subscribers s"
  "subscribers (s\<lparr>pendingJobs := h\<rparr>) = subscribers s"
  "subscribers (s\<lparr>isFlushing := i\<rparr>) = subscribers s"
  "subscribers (s\<lparr>microtasks := j\<rparr>) = subscribers s"
  "subscribers (s\<lparr>heap := k\<rparr>) = subscribers s"
  "subscribers (s\<lparr>reactiveMap := l\<rparr>) = subscribers s"
  "subscribers (s\<lparr>rawMap := m\<rparr>) = subscribers s"
  "subscribers (s\<lparr>nextRef := n\<rparr>) = subscribers s"
  "subscribers (s\<lparr>symbols := q\<rparr>) = subscribers s"
  by (simp_all add: subscribers_def fun_eq_iff)

lemma subscribers_delete_from:
  "subscribers (delete_from e d s) t k =
     (if (t, k) = d then removeAll e (subscribers s t k) else subscribers s t k)"
  by (cases d) (auto simp: subscribers_def split: option.splits)

lemma delete_from_frame [simp]:
  "activeEffect (delete_from e d s) = activeEffect s"
  "effectStack (delete_from e d s) = effectStack s"
  "deps (delete_from e d s) = deps s"
  "runs (delete_from e d s) = runs s"
  "dirty (delete_from e d s) = dirty s"
  "cached (delete_from e d s) = cached s"
  "pendingJobs (delete_from e d s) = pendingJobs s"
  "isFlushing (delete_from e d s) = isFlushing s"
  "microtasks (delete_from e d s) = microtasks s"
  "heap (delete_from e d s) = heap s"
  "reactiveMap (delete_from e d s) = reactiveMap s"
  "rawMap (delete_from e d s) = rawMap s"
  "nextRef (delete_from e d s) = nextRef s"
  "symbols (delete_from e d s) = symbols s"
  by (cases d; simp split: option.splits)+

lemma subscribers_fold_delete:
  "subscribers (fold (delete_from e) ds s) t k =
     (if (t, k) \<in> set ds then removeAll e (subscribers s t k) else subscribers s t k)"
  by (induction ds arbitrary: s) (auto simp: subscribers_delete_from)

lemma fold_delete_frame [simp]:
  "activeEffect (fold (delete_from e) ds s) = activeEffect s"
  "effectStack (fold (delete_from e) ds s) = effectStack s"
  "deps (fold (delete_from e) ds s) = deps s"
  "runs (fold (delete_from e) ds s) = runs s"
  "dirty (fold (delete_from e) ds s) = dirty s"
  "cached (fold (delete_from e) ds s) = cached s"
  "pendingJobs (fold (delete_from e) ds s) = pendingJobs s"
  "isFlushing (fold (delete_from e) ds s) = isFlushing s"
  "microtasks (fold (delete_from e) ds s) = microtasks s"
  "heap (fold (delete_from e) ds s) = heap s"
  "reactiveMap (fold (delete_from e) ds s) = reactiveMap s"
  "rawMap (fold (delete_from e) ds s) = rawMap s"
  "nextRef (fold (delete_from e) ds s) = nextRef s"
  "symbols (fold (delete_from e) ds s) = symbols s"
  by (induction ds arbitrary: s; simp)+

lemma subscribers_cleanup:
  "subscribers (cleanup e s) t k =
     (if (t, k) \<in> set (deps s e) then removeAll e (subscribers s t k) else subscribers s t k)"
  by (simp add: cleanup_def subscribers_fold_delete)

lemma cleanup_frame [simp]:
  "activeEffect (cleanup e s) = activeEffect s"
  "effectStack (cleanup e s) = effectStack s"
  "deps (cleanup e s) = (deps s)(e := [])"
  "runs (cleanup e s) = runs s"
  "dirty (cleanup e s) = dirty s"
  "cached (cleanup e s) = cached s"
  "pendingJobs (cleanup e s) = pendingJobs s"
  "isFlushing (cleanup e s) = isFlushing s"
  "microtasks (cleanup e s) = microtasks s"
  "heap (cleanup e s) = heap s"
  "reactiveMap (cleanup e s) = reactiveMap s"
  "rawMap (cleanup e s) = rawMap s"
  "nextRef (cleanup e s) = nextRef s"
  "symbols (cleanup e s) = symbols s"
  by (simp_all add: cleanup_def)

lemma subscribers_track:
  "subscribers (track t k s) t' k' =
     (case activeEffect s of
        None \<Rightarrow> subscribers s t' k'
      | Some e \<Rightarrow> if (t', k') = (t, k) then set_add e (subscribers s t k) else subscribers s t' k')"
  by (auto simp: track_def subscribers_def set_add_def Let_def split: option.splits)

lemma deps_track:
  "deps (track t k s) =
     (case activeEffect s of
        None \<Rightarrow> deps s
      | Some e \<Rightarrow> if e \<in> set (subscribers s t k) then deps s
                  else (deps s)(e := set_add (t, k) (deps s e)))"
  by (auto simp: track_def subscribers_def Let_def split: option.splits)

lemma track_frame [simp]:
  "activeEffect (track t k s) = activeEffect s"
  "effectStack (track t k s) = effectStack s"
  "runs (track t k s) = runs s"
  "dirty (track t k s) = dirty s"
  "cached (track t k s) = cached s"
  "pendingJobs (track t k s) = pendingJobs s"
  "isFlushing (track t k s) = isFlushing s"
  "microtasks (track t k s) = microtasks s"
  "heap (track t k s) = heap s"
  "reactiveMap (track t k s) = reactiveMap s"
  "rawMap (track t k s) = rawMap s"
  "nextRef (track t k s) = nextRef s"
  "symbols (track t k s) = symbols s"
  by (simp_all add: track_def Let_def split: option.splits)

lemmas eval_defs = exec_def step_def trigger_def effectFn_def runScheduler_def
  runOrSchedule_def effectsToRun_def track_def cleanup_def pushEffect_def popEffect_def
  set_add_def computed_value_def queueJob_def initial_def Let_def subscribers_def
  handled_def invoked_def reads_of_def

section \<open>What one call of trigger calls\<close>

lemma handled_append [simp]: "handled (a @ b) = handled a @ handled b"
  by (simp add: handled_def)

lemma handled_Nil [simp]: "handled [] = []"
  by (simp add: handled_def)

lemma invoke_shape:
  assumes "invoke n p f s = Some (s', tr)"
  shows "\<exists>sub. tr = (case f of EffectFn e \<Rightarrow> [Ran e sub] | SchedulerOf e \<Rightarrow> [Scheduled e sub])"
proof (cases n)
  case 0
  with assms show ?thesis by simp
next
  case (Suc m)
  with assms show ?thesis
    by (cases f)
       (auto simp: effectFn_def runScheduler_def Let_def
             split: option.splits sched.splits if_splits)
qed

lemma runOrSchedule_handled:
  assumes "runOrSchedule (invoke n p) p e s = Some (s', tr)"
  shows "handled tr = [(e, scheduler p e \<noteq> None)]"
  using assms
  by (auto simp: runOrSchedule_def handled_def split: option.splits dest!: invoke_shape)

lemma forEach_handled:
  assumes "forEach (runOrSchedule (invoke n p) p) es s = Some (s', tr)"
  shows "handled tr = map (\<lambda>e. (e, scheduler p e \<noteq> None)) es"
  using assms
proof (induction es arbitrary: s s' tr)
  case Nil
  then show ?case by simp
next
  case (Cons e es)
  then show ?case
    by (auto split: option.splits dest!: runOrSchedule_handled)
qed

lemma trigger_handled:
  assumes "trigger (invoke n p) p t k s = Some (s', tr)"
  shows "handled tr = map (\<lambda>e. (e, scheduler p e \<noteq> None)) (effectsToRun s (subscribers s t k))"
  using assms
  by (auto simp: trigger_def subscribers_def effectsToRun_def split: option.splits
           dest!: forEach_handled)

section \<open>Subscriptions of an effect across a computation\<close>


lemma reads_of_simps [simp]:
  "reads_of [] = []"
  "reads_of (a @ b) = reads_of a @ reads_of b"
  "reads_of [Tracked t k] = [(t, k)]"
  "reads_of [Cleaned e] = []"
  "reads_of [Ran e tr] = []"
  "reads_of [Scheduled e tr] = reads_of tr"
  by (simp_all add: reads_of_def)

lemma keeps_refl: "keeps E s s []"
  by (simp add: keeps_def)

lemma keeps_trans:
  "keeps E s s1 tr1 \<Longrightarrow> keeps E s1 s2 tr2 \<Longrightarrow> keeps E s s2 (tr1 @ tr2)"
  by (auto simp: keeps_def)

lemma keeps_top_ok: "keeps E s s' tr \<Longrightarrow> top_ok s \<Longrightarrow> top_ok s'"
  by (simp add: keeps_def top_ok_def)

lemma framedD:
  "framed E f \<Longrightarrow> f x s = Some (s', tr) \<Longrightarrow> top_ok s \<Longrightarrow> \<not> list_ex (disturbs E) tr
     \<Longrightarrow> keeps E s s' tr"
  by (auto simp: framed_def)

lemma forEach_keeps:
  assumes "framed E f"
  shows "forEach f xs s = Some (s', tr) \<Longrightarrow> top_ok s \<Longrightarrow> \<not> list_ex (disturbs E) tr
           \<Longrightarrow> keeps E s s' tr"
proof (induction xs arbitrary: s s' tr)
  case Nil
  then show ?case by (simp add: keeps_refl)
next
  case (Cons x xs)
  from Cons.prems(1) obtain s1 tr1 tr2
    where a: "f x s = Some (s1, tr1)" and b: "forEach f xs s1 = Some (s', tr2)"
      and tr: "tr = tr1 @ tr2"
    by (auto split: option.splits)
  from Cons.prems(3) tr have n1: "\<not> list_ex (disturbs E) tr1" and n2: "\<not> list_ex (disturbs E) tr2"
    by simp_all
  from framedD [OF assms a Cons.prems(2) n1] have k1: "keeps E s s1 tr1" .
  from Cons.IH [OF b keeps_top_ok [OF k1 Cons.prems(2)] n2] have "keeps E s1 s' tr2" .
  with k1 tr show ?case by (simp add: keeps_trans)
qed

lemma keeps_track: "keeps E s (track t k s) [Tracked t k]"
  by (auto simp: keeps_def subscribers_track set_add_def split: option.splits)

lemma keeps_cleanup: "e \<noteq> E \<Longrightarrow> keeps E s (cleanup e s) [Cleaned e]"
  by (auto simp: keeps_def subscribers_cleanup)

lemma keeps_same:
  "activeEffect s' = activeEffect s \<Longrightarrow> effectStack s' = effectStack s
     \<Longrightarrow> subscribers s' = subscribers s \<Longrightarrow> keeps E s s' []"
  by (simp add: keeps_def)

lemma keeps_queueJob: "keeps E s (queueJob e s) []"
  by (rule keeps_same) (simp_all add: queueJob_def Let_def)

lemma runOrSchedule_framed:
  assumes "framed E call"
  shows "framed E (runOrSchedule call p)"
  using assms
  by (auto simp: framed_def runOrSchedule_def split: option.splits)

lemma trigger_keeps:
  assumes "framed E call"
      and "trigger call p t k s = Some (s', tr)" and "top_ok s" and "\<not> list_ex (disturbs E) tr"
  shows "keeps E s s' tr"
  using assms(2-)
  by (auto simp: trigger_def keeps_refl split: option.splits
           intro: forEach_keeps [OF runOrSchedule_framed [OF assms(1)]])



lemma keeps_pre: "keeps E s s1 [] \<Longrightarrow> keeps E s1 s2 tr \<Longrightarrow> keeps E s s2 tr"
  using keeps_trans [of E s s1 "[]" s2 tr] by simp

lemma keeps_post: "keeps E s s1 tr \<Longrightarrow> keeps E s1 s2 [] \<Longrightarrow> keeps E s s2 tr"
  using keeps_trans [of E s s1 tr s2 "[]"] by simp

lemma heap_only_frame [simp]:
  "activeEffect (reflect_set r k v s) = activeEffect s"
  "effectStack (reflect_set r k v s) = effectStack s"
  "subscribers (reflect_set r k v s) = subscribers s"
  "activeEffect (reflect_deleteProperty r k s) = activeEffect s"
  "effectStack (reflect_deleteProperty r k s) = effectStack s"
  "subscribers (reflect_deleteProperty r k s) = subscribers s"
  "activeEffect (snd (reactive r s)) = activeEffect s"
  "effectStack (snd (reactive r s)) = effectStack s"
  "subscribers (snd (reactive r s)) = subscribers s"
  by (simp_all add: reflect_set_def reflect_deleteProperty_def reactive_def Let_def
        split: option.splits)

lemma top_ok_cong:
  "activeEffect s' = activeEffect s \<Longrightarrow> effectStack s' = effectStack s \<Longrightarrow> top_ok s' = top_ok s"
  by (simp add: top_ok_def)

lemma get_trap_keeps:
  "get_trap t k s = ((v, s1), tr) \<Longrightarrow> keeps E s s1 tr"
proof -
  assume a: "get_trap t k s = ((v, s1), tr)"
  show ?thesis
  proof (cases "k = IS_REACTIVE \<or> k = RAW")
    case True
    with a show ?thesis by (auto simp: get_trap_def keeps_refl split: if_splits)
  next
    case False
    have "s1 = track t k s \<or> (\<exists>r. s1 = snd (reactive r (track t k s)))" using a False
      by (auto simp: get_trap_def Let_def split: val.splits prod.splits)
         (metis snd_conv)
    then have "keeps E (track t k s) s1 []"
      by (auto intro!: keeps_same keeps_refl)
    moreover have "tr = [Tracked t k]" using a False
      by (auto simp: get_trap_def Let_def split: val.splits prod.splits)
    ultimately show ?thesis using keeps_post [OF keeps_track] by simp
  qed
qed

lemma has_trap_keeps: "has_trap t k s = ((b, s1), tr) \<Longrightarrow> keeps E s s1 tr"
  by (auto simp: has_trap_def keeps_track)

lemma ownKeys_trap_keeps: "ownKeys_trap t s = (s1, tr) \<Longrightarrow> keeps E s s1 tr"
  by (auto simp: ownKeys_trap_def Let_def intro!: keeps_pre [OF _ keeps_track] keeps_same)

lemma set_trap_keeps:
  assumes "framed E call"
      and "set_trap call p t k v s = Some (s', tr)" and "top_ok s" and "\<not> list_ex (disturbs E) tr"
  shows "keeps E s s' tr"
proof -
  define nv where "nv = (case v of VRef r \<Rightarrow> (let raw = get_RAW s r in if truthy raw then raw else v) | _ \<Rightarrow> v)"
  let ?s1 = "reflect_set t k nv s"
  have k1: "keeps E s ?s1 []" by (rule keeps_same) simp_all
  have t1: "top_ok ?s1" using assms(3) by (simp add: top_ok_def)
  from assms(2) have "(trigger call p t k ?s1 = Some (s', tr)) \<or> (s' = ?s1 \<and> tr = [])"
    by (auto simp: set_trap_def Let_def nv_def split: if_splits)
  then show ?thesis
    using trigger_keeps [OF assms(1) _ t1 assms(4)] k1 by (auto intro: keeps_pre)
qed

lemma deleteProperty_trap_keeps:
  assumes "framed E call"
      and "deleteProperty_trap call p t k s = Some (s', tr)" and "top_ok s"
      and "\<not> list_ex (disturbs E) tr"
  shows "keeps E s s' tr"
proof -
  let ?s1 = "reflect_deleteProperty t k s"
  have k1: "keeps E s ?s1 []" by (rule keeps_same) simp_all
  have t1: "top_ok ?s1" using assms(3) by (simp add: top_ok_def)
  from assms(2) have "(trigger call p t k ?s1 = Some (s', tr)) \<or> (s' = ?s1 \<and> tr = [])"
    by (auto simp: deleteProperty_trap_def Let_def split: if_splits)
  then show ?thesis
    using trigger_keeps [OF assms(1) _ t1 assms(4)] k1 by (auto intro: keeps_pre)
qed

lemma computed_value_keeps:
  assumes "framed E call"
      and "computed_value call p c s = Some (s', tr)" and "top_ok s"
      and "\<not> list_ex (disturbs E) tr"
  shows "keeps E s s' tr"
proof -
  define s1 where "s1 = (if activeEffect s \<noteq> None then track c value_key s else s)"
  define tr1 where "tr1 = (if activeEffect s \<noteq> None then [Tracked c value_key] else [])"
  have k1: "keeps E s s1 tr1"
    by (simp add: s1_def tr1_def keeps_track keeps_refl)
  have t1: "top_ok s1" using keeps_top_ok [OF k1 assms(3)] .
  show ?thesis
  proof (cases "dirty s1 c")
    case False
    with assms(2) have "s' = s1" "tr = tr1"
      by (auto simp: computed_value_def Let_def s1_def tr1_def split: if_splits)
    with k1 show ?thesis by simp
  next
    case True
    with assms(2) obtain s2 tr2 where
      c: "call (EffectFn (getter p c)) s1 = Some (s2, tr2)" and
      s': "s' = s2\<lparr>cached := (cached s2)(c \<mapsto> retval p (getter p c) (runs s1 (getter p c))),
                   dirty := (dirty s2)(c := False)\<rparr>" and
      tr: "tr = tr1 @ tr2"
      by (auto simp: computed_value_def Let_def s1_def tr1_def split: if_splits option.splits)
    from assms(4) tr have "\<not> list_ex (disturbs E) tr2" by simp
    from framedD [OF assms(1) c t1 this] have k2: "keeps E s1 s2 tr2" .
    have k3: "keeps E s2 s' []" unfolding s' by (rule keeps_same) simp_all
    from keeps_post [OF keeps_trans [OF k1 k2] k3] tr show ?thesis by simp
  qed
qed

lemma step_keeps:
  assumes "framed E call"
      and "step call p c s = Some (s', tr)" and "top_ok s" and "\<not> list_ex (disturbs E) tr"
  shows "keeps E s s' tr"
proof (cases c)
  case (Track t k)
  with assms(2) show ?thesis by (auto simp: step_def keeps_track)
next
  case (Trigger t k)
  with assms show ?thesis by (auto simp: step_def intro: trigger_keeps)
next
  case (Cleanup e)
  with assms(2,4) show ?thesis by (auto simp: step_def intro: keeps_cleanup)
next
  case (Call e)
  with assms show ?thesis by (auto simp: step_def dest: framedD)
next
  case (Value x)
  with assms show ?thesis by (auto simp: step_def intro: computed_value_keeps)
next
  case (QueueJob e)
  with assms(2) show ?thesis by (auto simp: step_def keeps_queueJob)
next
  case (PGet r k)
  with assms(2) show ?thesis
    by (auto simp: step_def keeps_refl split: option.splits obj.splits prod.splits
             dest: get_trap_keeps)
next
  case (PSet r k v)
  with assms show ?thesis
    by (auto simp: step_def keeps_refl split: option.splits obj.splits
             intro: set_trap_keeps keeps_same)
next
  case (PHas r k)
  with assms(2) show ?thesis
    by (auto simp: step_def keeps_refl split: option.splits obj.splits prod.splits
             dest: has_trap_keeps)
next
  case (PDelete r k)
  with assms show ?thesis
    by (auto simp: step_def keeps_refl split: option.splits obj.splits
             intro: deleteProperty_trap_keeps keeps_same)
next
  case (POwnKeys r)
  with assms(2) show ?thesis
    by (auto simp: step_def keeps_refl split: option.splits obj.splits
             dest: ownKeys_trap_keeps)
qed

lemma step_framed: "framed E call \<Longrightarrow> framed E (step call p)"
  unfolding framed_def [of E "step call p"] by (blast intro: step_keeps)

lemma exec_keeps:
  assumes "framed E call"
      and "exec call p cs s = Some (s', tr)" and "top_ok s" and "\<not> list_ex (disturbs E) tr"
  shows "keeps E s s' tr"
  using forEach_keeps [OF step_framed [OF assms(1)]] assms(2-) by (simp add: exec_def)



lemma effectFn_keeps:
  assumes "framed E call"
      and "effectFn call p e s = Some (s', tr)" and "top_ok s" and "\<not> list_ex (disturbs E) tr"
  shows "keeps E s s' tr"
proof -
  define s1 where "s1 = pushEffect e (cleanup e s)"
  define s2 where "s2 = s1\<lparr>runs := (runs s1)(e := Suc (runs s1 e))\<rparr>"
  from assms(2) obtain s3 sub where
    ex: "exec call p (fn p e (runs s1 e)) s2 = Some (s3, sub)" and
    s': "s' = popEffect s3" and tr: "tr = [Ran e sub]"
    by (auto simp: effectFn_def Let_def s1_def s2_def split: option.splits)
  from assms(4) tr have ne: "e \<noteq> E" and nd: "\<not> list_ex (disturbs E) sub"
    by auto
  have a2: "activeEffect s2 = Some e" and st2: "effectStack s2 = effectStack s @ [e]"
    by (simp_all add: s2_def s1_def pushEffect_def)
  then have t2: "top_ok s2" by (simp add: top_ok_def)
  from exec_keeps [OF assms(1) ex t2 nd] have k: "keeps E s2 s3 sub" .
  have sub2: "\<And>t k. E \<in> set (subscribers s2 t k) \<longleftrightarrow> E \<in> set (subscribers s t k)"
    using ne by (simp add: s2_def s1_def pushEffect_def subscribers_cleanup)
  from k a2 ne sub2 have sub3: "\<And>t k. E \<in> set (subscribers s3 t k) \<longleftrightarrow> E \<in> set (subscribers s t k)"
    by (simp add: keeps_def)
  from k st2 have st3: "effectStack s3 = effectStack s @ [e]" by (simp add: keeps_def)
  have "effectStack s' = effectStack s" "activeEffect s' = activeEffect s"
       "subscribers s' = subscribers s3"
    using st3 assms(3) by (simp_all add: s' popEffect_def Let_def top_ok_def)
  with sub3 tr show ?thesis by (simp add: keeps_def)
qed

lemma runScheduler_keeps:
  assumes "framed E call"
      and "runScheduler call p e s = Some (s', tr)" and "top_ok s"
      and "\<not> list_ex (disturbs E) tr"
  shows "keeps E s s' tr"
proof (cases "scheduler p e")
  case None
  with assms(2) show ?thesis by (simp add: runScheduler_def)
next
  case (Some sc)
  show ?thesis
  proof (cases sc)
    case (ComputedSched c)
    let ?s1 = "s\<lparr>dirty := (dirty s)(c := True)\<rparr>"
    have k1: "keeps E s ?s1 []" by (rule keeps_same) simp_all
    have t1: "top_ok ?s1" using assms(3) by (simp add: top_ok_def)
    from assms(2) Some ComputedSched
    have "(\<exists>sub. trigger call p c value_key ?s1 = Some (s', sub) \<and> tr = [Scheduled e sub])
          \<or> (s' = s \<and> tr = [Scheduled e []])"
      by (auto simp: runScheduler_def split: if_splits option.splits)
    then show ?thesis
    proof
      assume "\<exists>sub. trigger call p c value_key ?s1 = Some (s', sub) \<and> tr = [Scheduled e sub]"
      then obtain sub where tg: "trigger call p c value_key ?s1 = Some (s', sub)"
        and tr: "tr = [Scheduled e sub]" by blast
      from assms(4) tr have "\<not> list_ex (disturbs E) sub" by simp
      from trigger_keeps [OF assms(1) tg t1 this] have "keeps E ?s1 s' sub" .
      from keeps_pre [OF k1 this] tr show ?thesis by (simp add: keeps_def)
    next
      assume "s' = s \<and> tr = [Scheduled e []]"
      then show ?thesis by (simp add: keeps_def)
    qed
  next
    case QueueJobSched
    with assms(2) Some have "s' = queueJob e s" "tr = [Scheduled e []]"
      by (auto simp: runScheduler_def)
    with keeps_queueJob [of E s e] show ?thesis by (simp add: keeps_def)
  next
    case (UserSched cs)
    with assms(2) Some obtain sub where ex: "exec call p cs s = Some (s', sub)"
      and tr: "tr = [Scheduled e sub]"
      by (auto simp: runScheduler_def split: option.splits)
    from assms(4) tr have "\<not> list_ex (disturbs E) sub" by simp
    from exec_keeps [OF assms(1) ex assms(3) this] tr show ?thesis by (simp add: keeps_def)
  qed
qed

lemma invoke_framed: "framed E (invoke n p)"
proof (induction n)
  case 0
  show ?case by (simp add: framed_def)
next
  case (Suc n)
  show ?case
    unfolding framed_def
  proof (intro allI impI)
    fix f s s' tr
    assume a: "invoke (Suc n) p f s = Some (s', tr)" and t: "top_ok s"
      and d: "\<not> list_ex (disturbs E) tr"
    show "keeps E s s' tr"
    proof (cases f)
      case (EffectFn e)
      with a have "effectFn (invoke n p) p e s = Some (s', tr)" by simp
      from effectFn_keeps [OF Suc this t d] show ?thesis .
    next
      case (SchedulerOf e)
      with a have "runScheduler (invoke n p) p e s = Some (s', tr)" by simp
      from runScheduler_keeps [OF Suc this t d] show ?thesis .
    qed
  qed
qed

lemma cleanup_removes:
  assumes "linked s"
  shows "E \<notin> set (subscribers (cleanup E s) t k)"
  using assms by (auto simp: subscribers_cleanup linked_def)

lemma effect_run_subscriptions:
  assumes "linked s" and "top_ok s"
      and "invoke n p (EffectFn E) s = Some (s', [Ran E sub])"
      and "\<not> list_ex (disturbs E) sub"
  shows "E \<in> set (subscribers s' t k) \<longleftrightarrow> (t, k) \<in> set (reads_of sub)"
    and "activeEffect s' = activeEffect s"
proof -
  from assms(3) obtain m where n: "n = Suc m" by (cases n) auto
  define s1 where "s1 = pushEffect E (cleanup E s)"
  define s2 where "s2 = s1\<lparr>runs := (runs s1)(E := Suc (runs s1 E))\<rparr>"
  from assms(3) n obtain s3 where
    ex: "exec (invoke m p) p (fn p E (runs s1 E)) s2 = Some (s3, sub)" and
    s': "s' = popEffect s3"
    by (auto simp: effectFn_def Let_def s1_def s2_def split: option.splits)
  have a2: "activeEffect s2 = Some E" and st2: "effectStack s2 = effectStack s @ [E]"
    by (simp_all add: s2_def s1_def pushEffect_def)
  then have t2: "top_ok s2" by (simp add: top_ok_def)
  from exec_keeps [OF invoke_framed ex t2 assms(4)] have k: "keeps E s2 s3 sub" .
  have none: "\<And>t k. E \<notin> set (subscribers s2 t k)"
    using cleanup_removes [OF assms(1)] by (simp add: s2_def s1_def pushEffect_def)
  from k a2 none have "E \<in> set (subscribers s3 t k) \<longleftrightarrow> (t, k) \<in> set (reads_of sub)"
    by (simp add: keeps_def)
  moreover have "subscribers s' = subscribers s3"
    by (simp add: s' popEffect_def Let_def)
  ultimately show "E \<in> set (subscribers s' t k) \<longleftrightarrow> (t, k) \<in> set (reads_of sub)"
    by simp
  from k st2 have "effectStack s3 = effectStack s @ [E]" by (simp add: keeps_def)
  then show "activeEffect s' = activeEffect s"
    using assms(2) by (simp add: s' popEffect_def Let_def top_ok_def)
qed


section \<open>The invariants hold in every reachable state\<close>

lemma wf_linked: "wf s \<Longrightarrow> linked s"
  by (simp add: wf_def consistent_def linked_def)

lemma wf_initial: "wf initial"
  by (simp add: wf_def consistent_def top_ok_def initial_def subscribers_def)

lemma consistent_same:
  "subscribers s' = subscribers s \<Longrightarrow> deps s' = deps s \<Longrightarrow> consistent s' = consistent s"
  by (simp add: consistent_def)

lemma wf_same:
  "subscribers s' = subscribers s \<Longrightarrow> deps s' = deps s \<Longrightarrow> activeEffect s' = activeEffect s
     \<Longrightarrow> effectStack s' = effectStack s \<Longrightarrow> wf s' = wf s"
  by (simp add: wf_def consistent_def top_ok_def)

lemma consistent_track: "consistent s \<Longrightarrow> consistent (track t k s)"
  unfolding consistent_def
  by (auto simp: subscribers_track deps_track set_add_def split: option.splits)

lemma consistent_cleanup: "consistent s \<Longrightarrow> consistent (cleanup e s)"
  unfolding consistent_def
  by (auto simp: subscribers_cleanup distinct_removeAll)

lemma wf_track: "wf s \<Longrightarrow> wf (track t k s)"
  by (simp add: wf_def consistent_track top_ok_def)

lemma wf_cleanup: "wf s \<Longrightarrow> wf (cleanup e s)"
  by (simp add: wf_def consistent_cleanup top_ok_def)

lemma preservesD: "preserves I f \<Longrightarrow> f x s = Some (s', tr) \<Longrightarrow> I s \<Longrightarrow> I s'"
  by (auto simp: preserves_def)

lemma forEach_preserves:
  assumes "preserves I f"
  shows "forEach f xs s = Some (s', tr) \<Longrightarrow> I s \<Longrightarrow> I s'"
proof (induction xs arbitrary: s s' tr)
  case Nil
  then show ?case by simp
next
  case (Cons x xs)
  from Cons.prems(1) obtain s1 tr1 tr2
    where a: "f x s = Some (s1, tr1)" and b: "forEach f xs s1 = Some (s', tr2)"
    by (auto split: option.splits)
  from Cons.IH [OF b preservesD [OF assms a Cons.prems(2)]] show ?case .
qed

lemma runOrSchedule_preserves: "preserves I call \<Longrightarrow> preserves I (runOrSchedule call p)"
  by (auto simp: preserves_def runOrSchedule_def split: option.splits)

lemma trigger_preserves:
  assumes "preserves I call" and "trigger call p t k s = Some (s', tr)" and "I s"
  shows "I s'"
  using assms(2,3)
  by (auto simp: trigger_def split: option.splits
           intro: forEach_preserves [OF runOrSchedule_preserves [OF assms(1)]])

lemma deps_heap_only [simp]:
  "deps (reflect_set r k v s) = deps s"
  "deps (reflect_deleteProperty r k s) = deps s"
  "deps (snd (reactive r s)) = deps s"
  by (simp_all add: reflect_set_def reflect_deleteProperty_def reactive_def Let_def
        split: option.splits)

lemma wf_heap_only:
  "wf (reflect_set r k v s) = wf s"
  "wf (reflect_deleteProperty r k s) = wf s"
  "wf (snd (reactive r s)) = wf s"
  by (rule wf_same; simp)+

lemma wf_queueJob: "wf (queueJob e s) = wf s"
  by (rule wf_same) (simp_all add: queueJob_def Let_def)

lemma wf_pushEffect: "wf s \<Longrightarrow> wf (pushEffect e s)"
  by (simp add: wf_def consistent_def top_ok_def pushEffect_def)

lemma wf_popEffect: "wf s \<Longrightarrow> wf (popEffect s)"
  by (simp add: wf_def consistent_def top_ok_def popEffect_def Let_def)



lemma stableD:
  assumes "stable I" and "I s"
  shows "I (track t k s)" "I (cleanup e s)" "I (queueJob e s)" "I (pushEffect e s)"
        "I (popEffect s)" "I (s\<lparr>runs := f\<rparr>)" "I (s\<lparr>dirty := g\<rparr>)"
        "I (s\<lparr>cached := h, dirty := g\<rparr>)" "I (s\<lparr>symbols := n\<rparr>)"
        "I (reflect_set r k v s)" "I (reflect_deleteProperty r k s)" "I (snd (reactive r s))"
  using assms unfolding stable_def by simp_all

lemma get_trap_stable:
  assumes "stable I" and "get_trap t k s = ((v, s1), tr)" and "I s"
  shows "I s1"
proof -
  from assms(2) have "s1 = s \<or> s1 = track t k s \<or> (\<exists>r. s1 = snd (reactive r (track t k s)))"
    by (auto simp: get_trap_def Let_def split: val.splits prod.splits if_splits)
       (metis snd_conv)
  with assms(1,3) show ?thesis by (auto intro: stableD)
qed

lemma ownKeys_trap_stable:
  assumes "stable I" and "ownKeys_trap t s = (s1, tr)" and "I s"
  shows "I s1"
  using assms by (auto simp: ownKeys_trap_def Let_def intro: stableD)

lemma set_trap_stable:
  assumes "stable I" and "preserves I call" and "set_trap call p t k v s = Some (s', tr)"
      and "I s"
  shows "I s'"
proof -
  define nv where "nv = (case v of VRef r \<Rightarrow> (let raw = get_RAW s r in if truthy raw then raw else v) | _ \<Rightarrow> v)"
  let ?s1 = "reflect_set t k nv s"
  have w1: "I ?s1" using assms(1,4) by (rule stableD)
  from assms(3) have "(trigger call p t k ?s1 = Some (s', tr)) \<or> (s' = ?s1 \<and> tr = [])"
    by (auto simp: set_trap_def Let_def nv_def split: if_splits)
  then show ?thesis using trigger_preserves [OF assms(2) _ w1] w1 by auto
qed

lemma deleteProperty_trap_stable:
  assumes "stable I" and "preserves I call"
      and "deleteProperty_trap call p t k s = Some (s', tr)" and "I s"
  shows "I s'"
proof -
  let ?s1 = "reflect_deleteProperty t k s"
  have w1: "I ?s1" using assms(1,4) by (rule stableD)
  from assms(3) have "(trigger call p t k ?s1 = Some (s', tr)) \<or> (s' = ?s1 \<and> tr = [])"
    by (auto simp: deleteProperty_trap_def Let_def split: if_splits)
  then show ?thesis using trigger_preserves [OF assms(2) _ w1] w1 by auto
qed

lemma computed_value_stable:
  assumes "stable I" and "preserves I call" and "computed_value call p c s = Some (s', tr)"
      and "I s"
  shows "I s'"
proof -
  define s1 where "s1 = (if activeEffect s \<noteq> None then track c value_key s else s)"
  have w1: "I s1" using assms(1,4) by (simp add: s1_def stableD)
  show ?thesis
  proof (cases "dirty s1 c")
    case False
    with assms(3) have "s' = s1"
      by (auto simp: computed_value_def Let_def s1_def split: if_splits)
    with w1 show ?thesis by simp
  next
    case True
    with assms(3) obtain s2 tr2 where
      c: "call (EffectFn (getter p c)) s1 = Some (s2, tr2)" and
      s': "s' = s2\<lparr>cached := (cached s2)(c \<mapsto> retval p (getter p c) (runs s1 (getter p c))),
                   dirty := (dirty s2)(c := False)\<rparr>"
      by (auto simp: computed_value_def Let_def s1_def split: if_splits option.splits)
    from preservesD [OF assms(2) c w1] have "I s2" .
    with assms(1) show ?thesis unfolding s' by (rule stableD)
  qed
qed

lemma step_stable:
  assumes "stable I" and "preserves I call" and "step call p c s = Some (s', tr)" and "I s"
  shows "I s'"
proof (cases c)
  case (Track t k)
  with assms(1,3,4) show ?thesis by (auto simp: step_def intro: stableD)
next
  case (Trigger t k)
  with assms show ?thesis by (auto simp: step_def intro: trigger_preserves)
next
  case (Cleanup e)
  with assms(1,3,4) show ?thesis by (auto simp: step_def intro: stableD)
next
  case (Call e)
  with assms show ?thesis by (auto simp: step_def dest: preservesD)
next
  case (Value x)
  with assms show ?thesis by (auto simp: step_def intro: computed_value_stable)
next
  case (QueueJob e)
  with assms(1,3,4) show ?thesis by (auto simp: step_def intro: stableD)
next
  case (PGet r k)
  with assms(1,3,4) show ?thesis
    by (auto simp: step_def split: option.splits obj.splits prod.splits
             dest: get_trap_stable)
next
  case (PSet r k v)
  with assms show ?thesis
    by (auto simp: step_def split: option.splits obj.splits
             intro: set_trap_stable stableD)
next
  case (PHas r k)
  with assms(1,3,4) show ?thesis
    by (auto simp: step_def has_trap_def split: option.splits obj.splits prod.splits
             intro: stableD)
next
  case (PDelete r k)
  with assms show ?thesis
    by (auto simp: step_def split: option.splits obj.splits
             intro: deleteProperty_trap_stable stableD)
next
  case (POwnKeys r)
  with assms(1,3,4) show ?thesis
    by (auto simp: step_def split: option.splits obj.splits dest: ownKeys_trap_stable)
qed

lemma exec_stable:
  assumes "stable I" and "preserves I call" and "exec call p cs s = Some (s', tr)" and "I s"
  shows "I s'"
proof -
  have "preserves I (step call p)"
    unfolding preserves_def using step_stable [OF assms(1,2)] by blast
  from forEach_preserves [OF this] assms(3,4) show ?thesis by (simp add: exec_def)
qed

lemma effectFn_stable:
  assumes "stable I" and "preserves I call" and "effectFn call p e s = Some (s', tr)" and "I s"
  shows "I s'"
proof -
  define s1 where "s1 = pushEffect e (cleanup e s)"
  define s2 where "s2 = s1\<lparr>runs := (runs s1)(e := Suc (runs s1 e))\<rparr>"
  from assms(3) obtain s3 sub where
    ex: "exec call p (fn p e (runs s1 e)) s2 = Some (s3, sub)" and s': "s' = popEffect s3"
    by (auto simp: effectFn_def Let_def s1_def s2_def split: option.splits)
  have "I s1" using assms(1,4) by (simp add: s1_def stableD)
  with assms(1) have "I s2" unfolding s2_def by (rule stableD)
  from exec_stable [OF assms(1,2) ex this] assms(1) show ?thesis by (simp add: s' stableD)
qed

lemma runScheduler_stable:
  assumes "stable I" and "preserves I call" and "runScheduler call p e s = Some (s', tr)"
      and "I s"
  shows "I s'"
proof (cases "scheduler p e")
  case None
  with assms(3) show ?thesis by (simp add: runScheduler_def)
next
  case (Some sc)
  show ?thesis
  proof (cases sc)
    case (ComputedSched c)
    let ?s1 = "s\<lparr>dirty := (dirty s)(c := True)\<rparr>"
    from assms(1,4) have w1: "I ?s1" by (rule stableD)
    from assms(3) Some ComputedSched
    have "(\<exists>sub. trigger call p c value_key ?s1 = Some (s', sub)) \<or> s' = s"
      by (auto simp: runScheduler_def split: if_splits option.splits)
    then show ?thesis using trigger_preserves [OF assms(2) _ w1] assms(4) by auto
  next
    case QueueJobSched
    with assms(1,3,4) Some show ?thesis by (auto simp: runScheduler_def intro: stableD)
  next
    case (UserSched cs)
    with assms(3) Some obtain sub where "exec call p cs s = Some (s', sub)"
      by (auto simp: runScheduler_def split: option.splits)
    from exec_stable [OF assms(1,2) this assms(4)] show ?thesis .
  qed
qed

lemma invoke_preserves:
  assumes "stable I"
  shows "preserves I (invoke n p)"
proof (induction n)
  case 0
  show ?case by (simp add: preserves_def)
next
  case (Suc n)
  show ?case
    unfolding preserves_def
  proof (intro allI impI)
    fix f s s' tr
    assume a: "invoke (Suc n) p f s = Some (s', tr)" and w: "I s"
    show "I s'"
    proof (cases f)
      case (EffectFn e)
      with a have "effectFn (invoke n p) p e s = Some (s', tr)" by simp
      from effectFn_stable [OF assms Suc this w] show ?thesis .
    next
      case (SchedulerOf e)
      with a have "runScheduler (invoke n p) p e s = Some (s', tr)" by simp
      from runScheduler_stable [OF assms Suc this w] show ?thesis .
    qed
  qed
qed

lemma stable_wf: "stable wf"
  unfolding stable_def
  by (intro conjI allI impI)
     (simp_all add: wf_track wf_cleanup wf_queueJob wf_pushEffect wf_popEffect wf_heap_only,
      (simp add: wf_def consistent_def top_ok_def)+)

lemma stable_queue_grows: "stable (queue_grows q)"
  unfolding stable_def queue_grows_def
  by (intro conjI allI impI)
     (auto simp: queueJob_def set_add_def Let_def pushEffect_def popEffect_def
        reflect_set_def reflect_deleteProperty_def reactive_def split: option.splits)

lemma invoke_wf: "invoke n p f s = Some (s', tr) \<Longrightarrow> wf s \<Longrightarrow> wf s'"
  using invoke_preserves [OF stable_wf] by (rule preservesD)

lemma run_wf: "exec (invoke n p) p cs s = Some (s', tr) \<Longrightarrow> wf s \<Longrightarrow> wf s'"
  using exec_stable [OF stable_wf invoke_preserves [OF stable_wf]] .

section \<open>Computed refs\<close>

lemma exec_reads:
  assumes "list_all is_read cs"
  shows "\<exists>s'. exec call p cs s = Some (s', concat (map read_event cs))
           \<and> runs s' = runs s \<and> dirty s' = dirty s \<and> cached s' = cached s"
  using assms
proof (induction cs arbitrary: s)
  case Nil
  then show ?case by (simp add: exec_def)
next
  case (Cons c cs)
  then obtain t k where c: "c = Track t k" by (cases c) auto
  from Cons.prems have "list_all is_read cs" by simp
  from Cons.IH [OF this, of "track t k s"] obtain s' where
    "exec call p cs (track t k s) = Some (s', concat (map read_event cs))"
    "runs s' = runs s" "dirty s' = dirty s" "cached s' = cached s"
    by auto
  then show ?case by (simp add: exec_def step_def c)
qed

lemma reads_of_Cons [simp]: "reads_of (x # xs) = own_reads x @ reads_of xs"
  by (simp add: reads_of_def)

lemma no_disturb_read: "\<not> list_ex (disturbs E) (read_event c)"
  by (cases c) simp_all

lemma no_disturb_reads: "\<not> list_ex (disturbs E) (concat (map read_event cs))"
  by (induction cs) (simp_all add: no_disturb_read)

lemma reads_of_read_events:
  "(t, k) \<in> set (reads_of (concat (map read_event cs))) \<longleftrightarrow> Track t k \<in> set cs"
proof (induction cs)
  case Nil
  show ?case by simp
next
  case (Cons c cs)
  show ?case
  proof (cases c)
    case (Track t' k')
    with Cons show ?thesis by auto
  qed (use Cons in auto)
qed

lemma trigger_alt:
  "trigger call p t k s = forEach (runOrSchedule call p) (effectsToRun s (subscribers s t k)) s"
  by (simp add: trigger_def subscribers_def effectsToRun_def split: option.splits)

lemma only_list:
  assumes "wf s" and "only e s t k"
  shows "subscribers s t k = [] \<or> subscribers s t k = [e]"
proof -
  from assms(1) have d: "distinct (subscribers s t k)" by (simp add: wf_def consistent_def)
  from assms(2) have sub: "set (subscribers s t k) \<subseteq> {e}" by (simp add: only_def)
  show ?thesis
  proof (cases "subscribers s t k")
    case Nil
    then show ?thesis by simp
  next
    case (Cons a as)
    with sub have a: "a = e" and "set as \<subseteq> {e}" by auto
    with d Cons have "as = []" by (cases as) auto
    with Cons a show ?thesis by simp
  qed
qed

lemma getter_run:
  assumes "computed_setup p c e" and "wf s" and "activeEffect s = None"
  shows "\<exists>s2 tr. invoke (Suc n) p (EffectFn e) s = Some (s2, tr)
           \<and> runs s2 = (runs s)(e := Suc (runs s e)) \<and> dirty s2 = dirty s \<and> cached s2 = cached s
           \<and> wf s2 \<and> activeEffect s2 = None
           \<and> (\<forall>t k. e \<in> set (subscribers s2 t k) \<longleftrightarrow> Track t k \<in> set (fn p e (runs s e)))
           \<and> (\<forall>x t k. x \<noteq> e \<longrightarrow> (x \<in> set (subscribers s2 t k) \<longleftrightarrow> x \<in> set (subscribers s t k)))"
proof -
  define sA where "sA = pushEffect e (cleanup e s)"
  define sB where "sB = sA\<lparr>runs := (runs sA)(e := Suc (runs sA e))\<rparr>"
  define body where "body = fn p e (runs s e)"
  define evs where "evs = concat (map read_event body)"
  have rA: "runs sA = runs s" by (simp add: sA_def pushEffect_def)
  from assms(1) have pure: "list_all is_read body" by (simp add: computed_setup_def body_def)
  from exec_reads [OF pure, of "invoke n p" p sB] obtain s3 where
    ex: "exec (invoke n p) p body sB = Some (s3, evs)" and
    r3: "runs s3 = runs sB" "dirty s3 = dirty sB" "cached s3 = cached sB"
    by (auto simp: evs_def)
  define s2 where "s2 = popEffect s3"
  have sB': "sB = sA\<lparr>runs := (runs s)(e := Suc (runs s e))\<rparr>"
    by (simp add: sB_def rA)
  have inv: "invoke (Suc n) p (EffectFn e) s = Some (s2, [Ran e evs])"
    using ex by (simp add: effectFn_def Let_def sA_def [symmetric] rA sB' [symmetric]
                    body_def [symmetric] s2_def)
  from assms(2) have l: "linked s" and t: "top_ok s"
    by (simp_all add: wf_linked) (simp add: wf_def)
  have nd: "\<not> list_ex (disturbs e) evs" by (simp add: evs_def no_disturb_reads)
  have mem: "\<And>t k. e \<in> set (subscribers s2 t k) \<longleftrightarrow> Track t k \<in> set body"
    using effect_run_subscriptions(1) [OF l t inv nd]
    by (simp add: evs_def reads_of_read_events)
  have act: "activeEffect s2 = None"
    using effect_run_subscriptions(2) [OF l t inv nd] assms(3) by simp
  have w2: "wf s2" using invoke_wf [OF inv assms(2)] .
  have others: "x \<in> set (subscribers s2 t k) \<longleftrightarrow> x \<in> set (subscribers s t k)"
    if "x \<noteq> e" for x t k
  proof -
    from that have "\<not> list_ex (disturbs x) [Ran e evs]"
      by (simp add: evs_def no_disturb_reads)
    from framedD [OF invoke_framed inv t this] have "keeps x s s2 [Ran e evs]" .
    with assms(3) show ?thesis by (simp add: keeps_def)
  qed
  have "runs s2 = (runs s)(e := Suc (runs s e))" "dirty s2 = dirty s" "cached s2 = cached s"
    using r3 by (simp_all add: s2_def popEffect_def Let_def sB_def sA_def pushEffect_def)
  with inv w2 act mem others show ?thesis by (auto simp: body_def)
qed

lemma dirty_read:
  assumes "computed_setup p c e" and "wf s" and "activeEffect s = None" and "dirty s c"
  shows "\<exists>s1 tr. computed_value (invoke (Suc n) p) p c s = Some (s1, tr)
           \<and> runs s1 = (runs s)(e := Suc (runs s e)) \<and> \<not> dirty s1 c
           \<and> cached s1 c = Some (retval p e (runs s e))
           \<and> wf s1 \<and> activeEffect s1 = None
           \<and> (\<forall>t k. e \<in> set (subscribers s1 t k) \<longleftrightarrow> Track t k \<in> set (fn p e (runs s e)))
           \<and> (\<forall>x t k. x \<noteq> e \<longrightarrow> (x \<in> set (subscribers s1 t k) \<longleftrightarrow> x \<in> set (subscribers s t k)))"
proof -
  from getter_run [OF assms(1-3), of n] obtain s2 tr where
    inv: "invoke (Suc n) p (EffectFn e) s = Some (s2, tr)" and
    f: "runs s2 = (runs s)(e := Suc (runs s e))" "wf s2" "activeEffect s2 = None"
       "\<forall>t k. e \<in> set (subscribers s2 t k) \<longleftrightarrow> Track t k \<in> set (fn p e (runs s e))"
       "\<forall>x t k. x \<noteq> e \<longrightarrow> (x \<in> set (subscribers s2 t k) \<longleftrightarrow> x \<in> set (subscribers s t k))"
    by blast
  define s1 where "s1 = s2\<lparr>cached := (cached s2)(c \<mapsto> retval p e (runs s e)),
                            dirty := (dirty s2)(c := False)\<rparr>"
  from assms(1) have g: "getter p c = e" by (simp add: computed_setup_def)
  have cv: "computed_value (invoke (Suc n) p) p c s = Some (s1, tr)"
    using assms(3,4) inv g unfolding computed_value_def Let_def s1_def by simp
  have "wf s1 = wf s2" unfolding s1_def by (rule wf_same) simp_all
  then show ?thesis using cv f by (auto simp: s1_def)
qed

lemma clean_read:
  assumes "activeEffect s = None" and "\<not> dirty s c"
  shows "computed_value call p c s = Some (s, [])"
  using assms by (simp add: computed_value_def)

lemma scheduler_when_dirty:
  assumes "computed_setup p c e" and "dirty s c"
  shows "invoke (Suc n) p (SchedulerOf e) s = Some (s, [Scheduled e []])"
  using assms by (simp add: computed_setup_def runScheduler_def)

lemma mutation_marks_dirty:
  assumes "computed_setup p c e" and "wf s" and "activeEffect s = None"
      and "only e s t k" and "only e s c value_key" and "e \<in> set (subscribers s t k)"
  shows "\<exists>tr. trigger (invoke (Suc (Suc n)) p) p t k s
                = Some (s\<lparr>dirty := (dirty s)(c := True)\<rparr>, tr)
              \<and> handled tr = [(e, True)]"
proof -
  from only_list [OF assms(2,4)] assms(6) have subs: "subscribers s t k = [e]" by auto
  from assms(1) have sch: "scheduler p e = Some (ComputedSched c)"
    by (simp add: computed_setup_def)
  let ?s1 = "s\<lparr>dirty := (dirty s)(c := True)\<rparr>"
  have inner: "\<exists>sub. runScheduler (invoke (Suc n) p) p e s = Some (?s1, [Scheduled e sub])"
  proof (cases "dirty s c")
    case True
    then have "(dirty s)(c := True) = dirty s" by (simp add: fun_eq_iff)
    then have "?s1 = s" by simp
    with True sch show ?thesis by (simp add: runScheduler_def)
  next
    case False
    have d1: "dirty ?s1 c" by simp
    from only_list [OF assms(2,5)]
    have "subscribers ?s1 c value_key = [] \<or> subscribers ?s1 c value_key = [e]" by simp
    then have "\<exists>tr. trigger (invoke (Suc n) p) p c value_key ?s1 = Some (?s1, tr)"
    proof
      assume "subscribers ?s1 c value_key = []"
      then show ?thesis by (simp add: trigger_alt effectsToRun_def)
    next
      assume a: "subscribers ?s1 c value_key = [e]"
      have "runOrSchedule (invoke (Suc n) p) p e ?s1 = Some (?s1, [Scheduled e []])"
        using scheduler_when_dirty [OF assms(1) d1] sch by (simp add: runOrSchedule_def)
      with a assms(3) show ?thesis by (simp add: trigger_alt effectsToRun_def)
    qed
    with False sch show ?thesis by (auto simp: runScheduler_def)
  qed
  then obtain sub where "runScheduler (invoke (Suc n) p) p e s = Some (?s1, [Scheduled e sub])"
    by blast
  then have "runOrSchedule (invoke (Suc (Suc n)) p) p e s = Some (?s1, [Scheduled e sub])"
    using sch by (simp add: runOrSchedule_def)
  with subs assms(3) show ?thesis by (simp add: trigger_alt effectsToRun_def handled_def)
qed

text \<open>
  With a getter that only reads refs, outside any effect and with no other effect registered
  for the computed ref or for what the getter reads, every call involved returns: the first
  read runs the getter once, the second read calls nothing, a write to what the getter read
  calls the scheduler alone, and the next read runs the getter once more.
\<close>

lemma reading_getter_caching:
  assumes "computed_setup p c e" and "wf s" and "activeEffect s = None" and "dirty s c"
      and "only e s c value_key"
      and "\<forall>t k. Track t k \<in> set (fn p e (runs s e)) \<longrightarrow> only e s t k"
  shows "\<exists>s1 tr1. computed_value (invoke (Suc n) p) p c s = Some (s1, tr1)
           \<and> runs s1 = (runs s)(e := Suc (runs s e))
           \<and> (\<exists>s2. computed_value (invoke m p) p c s1 = Some (s2, [])
                 \<and> runs s2 = runs s1 \<and> cached s2 c = cached s1 c
                 \<and> cached s2 c = Some (retval p e (runs s e))
                 \<and> (\<forall>t k. Track t k \<in> set (fn p e (runs s e)) \<longrightarrow>
                      (\<exists>s3 tr3. trigger (invoke (Suc (Suc n)) p) p t k s2 = Some (s3, tr3)
                         \<and> handled tr3 = [(e, True)]
                         \<and> runs s3 = runs s2 \<and> dirty s3 c
                         \<and> (\<exists>s4 tr4. computed_value (invoke (Suc n) p) p c s3 = Some (s4, tr4)
                               \<and> runs s4 = (runs s3)(e := Suc (runs s3 e))))))"
proof -
  from dirty_read [OF assms(1-4), of n] obtain s1 tr1 where
    r1: "computed_value (invoke (Suc n) p) p c s = Some (s1, tr1)"
        "runs s1 = (runs s)(e := Suc (runs s e))" and
    c1: "\<not> dirty s1 c" "cached s1 c = Some (retval p e (runs s e))" and
    i1: "wf s1" "activeEffect s1 = None" and
    m1: "\<forall>t k. e \<in> set (subscribers s1 t k) \<longleftrightarrow> Track t k \<in> set (fn p e (runs s e))" and
    o1: "\<forall>x t k. x \<noteq> e \<longrightarrow> (x \<in> set (subscribers s1 t k) \<longleftrightarrow> x \<in> set (subscribers s t k))"
    by blast
  have keep: "only e s t k \<Longrightarrow> only e s1 t k" for t k
    using o1 unfolding only_def by blast
  have r2: "computed_value (invoke m p) p c s1 = Some (s1, [])"
    using clean_read [OF i1(2) c1(1)] .
  have after: "\<exists>s3 tr3. trigger (invoke (Suc (Suc n)) p) p t k s1 = Some (s3, tr3)
                 \<and> handled tr3 = [(e, True)]
                 \<and> runs s3 = runs s1 \<and> dirty s3 c
                 \<and> (\<exists>s4 tr4. computed_value (invoke (Suc n) p) p c s3 = Some (s4, tr4)
                       \<and> runs s4 = (runs s3)(e := Suc (runs s3 e)))"
    if rd: "Track t k \<in> set (fn p e (runs s e))" for t k
  proof -
    from rd m1 have sub: "e \<in> set (subscribers s1 t k)" by simp
    from rd assms(6) have "only e s1 t k" by (simp add: keep)
    from mutation_marks_dirty [OF assms(1) i1 this keep [OF assms(5)] sub, of n] obtain tr3 where
      tg: "trigger (invoke (Suc (Suc n)) p) p t k s1
             = Some (s1\<lparr>dirty := (dirty s1)(c := True)\<rparr>, tr3)"
          "handled tr3 = [(e, True)]" by blast
    let ?s3 = "s1\<lparr>dirty := (dirty s1)(c := True)\<rparr>"
    have "wf ?s3 = wf s1" by (rule wf_same) simp_all
    with i1 have w3: "wf ?s3" "activeEffect ?s3 = None" "dirty ?s3 c"
      by simp_all
    from dirty_read [OF assms(1) w3, of n] obtain s4 tr4 where
      "computed_value (invoke (Suc n) p) p c ?s3 = Some (s4, tr4)"
      "runs s4 = (runs ?s3)(e := Suc (runs ?s3 e))"
      by blast
    with tg show ?thesis by auto
  qed
  from r1 r2 c1 after show ?thesis by blast
qed


section \<open>The job queue during a flush\<close>

lemma invoke_queue_grows:
  assumes "invoke n p f s = Some (s', tr)" and "distinct (pendingJobs s)"
  shows "(\<exists>ys. pendingJobs s' = pendingJobs s @ ys) \<and> distinct (pendingJobs s')"
proof -
  have "queue_grows (pendingJobs s) s" using assms(2) by (simp add: queue_grows_def)
  from preservesD [OF invoke_preserves [OF stable_queue_grows] assms(1) this]
  show ?thesis by (simp add: queue_grows_def)
qed

lemma flushLoop_handled:
  "flushLoop m (invoke n p) i s = Some (s', tr) \<Longrightarrow> distinct (pendingJobs s)
     \<Longrightarrow> i \<le> length (pendingJobs s)
     \<Longrightarrow> handled tr = map (\<lambda>job. (job, False)) (drop i (pendingJobs s'))
         \<and> (\<exists>ys. pendingJobs s' = pendingJobs s @ ys) \<and> distinct (pendingJobs s')"
proof (induction m arbitrary: i s s' tr)
  case 0
  then show ?case by (auto split: if_splits)
next
  case (Suc m)
  show ?case
  proof (cases "i < length (pendingJobs s)")
    case False
    with Suc.prems show ?thesis by auto
  next
    case True
    define job where "job = pendingJobs s ! i"
    from Suc.prems(1) True obtain s1 tr1 tr2 where
      c: "invoke n p (EffectFn job) s = Some (s1, tr1)" and
      l: "flushLoop m (invoke n p) (Suc i) s1 = Some (s', tr2)" and
      tr: "tr = tr1 @ tr2"
      by (auto simp: job_def split: option.splits)
    from invoke_queue_grows [OF c Suc.prems(2)] obtain ys1 where
      g1: "pendingJobs s1 = pendingJobs s @ ys1" and d1: "distinct (pendingJobs s1)" by blast
    from True g1 have le: "Suc i \<le> length (pendingJobs s1)" by simp
    from Suc.IH [OF l d1 le] obtain ys2 where
      h2: "handled tr2 = map (\<lambda>job. (job, False)) (drop (Suc i) (pendingJobs s'))" and
      g2: "pendingJobs s' = pendingJobs s1 @ ys2" and d2: "distinct (pendingJobs s')" by blast
    from invoke_shape [OF c] have h1: "handled tr1 = [(job, False)]"
      by (auto simp: handled_def)
    from g1 g2 True have nth: "pendingJobs s' ! i = job" and len: "i < length (pendingJobs s')"
      by (simp_all add: job_def nth_append)
    from Cons_nth_drop_Suc [OF len] nth
    have "drop i (pendingJobs s') = job # drop (Suc i) (pendingJobs s')" by simp
    with h1 h2 tr g1 g2 d2 show ?thesis by simp
  qed
qed


section \<open>Proxies\<close>

lemmas proxy_defs = reactive_def markRaw_def get_IS_REACTIVE_def get_RAW_def reflect_get_def
  reflect_set_def reflect_has_def reflect_deleteProperty_def props_of_def isReactive_def
  IS_REACTIVE_def RAW_def get_trap_def set_trap_def has_trap_def deleteProperty_trap_def
  ownKeys_trap_def one_object_def one_proxy_def


lemma reactive_again:
  assumes "reactive t s = (p, s')"
  shows "reactive t s' = (p, s') \<or> p = t"
  using assms by (auto simp: reactive_def Let_def split: option.splits if_splits)

lemma reactive_of_proxy:
  assumes "heap s p = Some (ProxyOf t)" and "reactiveMap s p = None"
  shows "reactive p s = (p, s)"
  using assms by (simp add: reactive_def get_IS_REACTIVE_def)

section \<open>Reconciliation of children\<close>

lemma map_set_fresh: "k \<notin> fst ` set m \<Longrightarrow> map_set k v m = m @ [(k, v)]"
  by (induction m) auto

lemma partition_old_nodes:
  "partition_old (map CNode vs) K U =
     (fold (\<lambda>v K. case key v of Some k \<Rightarrow> map_set k v K | None \<Rightarrow> K) vs K,
      U @ filter (\<lambda>v. key v = None) vs)"
  by (induction vs arbitrary: K U) (auto split: option.splits)

lemma fold_keyed:
  assumes "list_all (\<lambda>v. key v \<noteq> None) vs" and "distinct (map key vs)"
      and "\<forall>v \<in> set vs. the (key v) \<notin> fst ` set K"
  shows "fold (\<lambda>v K. case key v of Some k \<Rightarrow> map_set k v K | None \<Rightarrow> K) vs K
           = K @ map (\<lambda>v. (the (key v), v)) vs"
  using assms
proof (induction vs arbitrary: K)
  case Nil
  then show ?case by simp
next
  case (Cons v vs)
  from Cons.prems(1) obtain k where k: "key v = Some k" by auto
  from Cons.prems(3) k have fresh: "k \<notin> fst ` set K" by auto
  have "\<forall>w \<in> set vs. the (key w) \<notin> fst ` set (K @ [(k, v)])"
  proof
    fix w assume w: "w \<in> set vs"
    with Cons.prems(1) obtain k' where k': "key w = Some k'" by (auto simp: list_all_iff)
    from Cons.prems(2) w k have "key w \<noteq> Some k" by (auto simp: image_iff)
    with k' have ne: "k' \<noteq> k" by simp
    from Cons.prems(3) w have "the (key w) \<notin> fst ` set K" by simp
    with k' have "k' \<notin> fst ` set K" by simp
    with ne k' show "the (key w) \<notin> fst ` set (K @ [(k, v)])" by simp
  qed
  with Cons.IH [of "K @ [(k, v)]"] Cons.prems(1,2) k fresh show ?case
    by (simp add: map_set_fresh)
qed

lemma map_of_delete: "k' \<noteq> k \<Longrightarrow> map_of (map_delete k K) k' = map_of K k'"
  by (induction K) (auto simp: map_delete_def)

lemma match_new_keyed:
  assumes "list_all (\<lambda>v. key v \<noteq> None) ns" and "distinct (map key ns)"
  shows "match_new (map CNode ns) K U i =
           (map (\<lambda>n. case map_of K (the (key n)) of Some oldChild \<Rightarrow> PatchOf oldChild n
                                                  | None \<Rightarrow> MountOf n) ns,
            filter (\<lambda>(k, v). Some k \<notin> set (map key ns)) K, i)"
  using assms
proof (induction ns arbitrary: K)
  case Nil
  then show ?case by simp
next
  case (Cons n ns)
  from Cons.prems(1) obtain k where k: "key n = Some k" by auto
  from Cons.prems have p: "list_all (\<lambda>v. key v \<noteq> None) ns" "distinct (map key ns)"
    and fresh: "Some k \<notin> set (map key ns)" using k by auto
  have same: "map (\<lambda>n. case map_of (map_delete k K) (the (key n)) of
                          Some oldChild \<Rightarrow> PatchOf oldChild n | None \<Rightarrow> MountOf n) ns
              = map (\<lambda>n. case map_of K (the (key n)) of
                          Some oldChild \<Rightarrow> PatchOf oldChild n | None \<Rightarrow> MountOf n) ns"
  proof (rule map_cong [OF refl])
    fix m assume m: "m \<in> set ns"
    with p(1) obtain k' where k': "key m = Some k'" by (auto simp: list_all_iff)
    with fresh m have "k' \<noteq> k" by (auto simp: image_iff)
    with k' show "(case map_of (map_delete k K) (the (key m)) of
                     Some oldChild \<Rightarrow> PatchOf oldChild m | None \<Rightarrow> MountOf m)
                = (case map_of K (the (key m)) of
                     Some oldChild \<Rightarrow> PatchOf oldChild m | None \<Rightarrow> MountOf m)"
      by (simp add: map_of_delete)
  qed
  have filt: "filter (\<lambda>(k', v). Some k' \<notin> set (map key ns)) (map_delete k K)
              = filter (\<lambda>(k', v). Some k' \<notin> set (map key (n # ns))) K"
    using k by (induction K) (auto simp: map_delete_def)
  show ?case
  proof (cases "map_of K k")
    case None
    then have "filter (\<lambda>(k', v). Some k' \<notin> set (map key ns)) K
               = filter (\<lambda>(k', v). Some k' \<notin> set (map key (n # ns))) K"
      using k by (induction K) (auto split: if_splits)
    with None k Cons.IH [OF p, of K] show ?thesis by simp
  next
    case (Some oldChild)
    with k Cons.IH [OF p, of "map_delete k K"] same filt show ?thesis by simp
  qed
qed

lemma match_new_unkeyed:
  assumes "list_all (\<lambda>v. key v = None) ns"
  shows "match_new (map CNode ns) K U i =
           (map (\<lambda>(oldChild, n). PatchOf oldChild n) (zip (drop i U) ns)
              @ map MountOf (drop (length U - i) ns),
            K, i + length ns)"
  using assms
proof (induction ns arbitrary: i)
  case Nil
  then show ?case by simp
next
  case (Cons n ns)
  then have k: "key n = None" and p: "list_all (\<lambda>v. key v = None) ns" by auto
  show ?case
  proof (cases "i < length U")
    case True
    then have "drop i U = U ! i # drop (Suc i) U" by (simp add: Cons_nth_drop_Suc)
    moreover from True have "length U - i = Suc (length U - Suc i)" by simp
    ultimately show ?thesis using k Cons.IH [OF p, of "Suc i"] True by simp
  next
    case False
    then show ?thesis using k Cons.IH [OF p, of "Suc i"] by simp
  qed
qed

lemma patchChildren_nodes:
  assumes "children oldVNode = map CNode os" and "children newVNode = map CNode ns"
  shows "patchChildren oldVNode newVNode =
           (let (oldKeyed, oldUnkeyed) = partition_old (map CNode os) [] [];
                (calls, rest, unkeyedIndex) = match_new (map CNode ns) oldKeyed oldUnkeyed 0
            in calls @ map (\<lambda>(k, v). UnmountOf v) rest
               @ map UnmountOf (drop unkeyedIndex oldUnkeyed))"
proof -
  have a: "typeof_object (hd (map CNode os))" if "length os = Suc 0"
    using that by (cases os) auto
  have b: "list_all (\<lambda>c. nullish c \<or> typeof_object c) (map CNode vs)" for vs
    by (induction vs) auto
  show ?thesis
    using a by (auto simp: patchChildren_def Let_def assms b)
qed

lemma map_of_keyed:
  assumes "list_all (\<lambda>v. key v \<noteq> None) os" and "key n = Some k"
  shows "map_of (map (\<lambda>v. (the (key v), v)) os) k = old_with_key os n"
  using assms by (induction os) (auto simp: old_with_key_def)

lemma filter_unkeyed_none:
  "list_all (\<lambda>v. key v \<noteq> None) vs \<Longrightarrow> filter (\<lambda>v. key v = None) vs = []"
  by (induction vs) auto

lemma fold_unkeyed:
  "list_all (\<lambda>v. key v = None) vs
     \<Longrightarrow> fold (\<lambda>v K. case key v of Some k \<Rightarrow> map_set k v K | None \<Rightarrow> K) vs K = K"
  by (induction vs arbitrary: K) auto

lemma patchChildren_keyed:
  assumes "children oldVNode = map CNode os" and "children newVNode = map CNode ns"
      and "keyed_list os" and "keyed_list ns"
  shows "patchChildren oldVNode newVNode =
           map (\<lambda>n. case old_with_key os n of Some oldChild \<Rightarrow> PatchOf oldChild n
                                              | None \<Rightarrow> MountOf n) ns
           @ map UnmountOf (filter (\<lambda>oldChild. key oldChild \<notin> set (map key ns)) os)"
proof -
  from assms(3,4) have ko: "list_all (\<lambda>v. key v \<noteq> None) os" "distinct (map key os)"
    and kn: "list_all (\<lambda>v. key v \<noteq> None) ns" "distinct (map key ns)"
    by (simp_all add: keyed_list_def)
  define K where "K = map (\<lambda>v. (the (key v), v)) os"
  have part: "partition_old (map CNode os) [] [] = (K, [])"
    using fold_keyed [OF ko, of "[]"] ko(1)
    by (simp add: partition_old_nodes K_def filter_unkeyed_none)
  have calls: "map (\<lambda>n. case map_of K (the (key n)) of Some oldChild \<Rightarrow> PatchOf oldChild n
                                                     | None \<Rightarrow> MountOf n) ns
             = map (\<lambda>n. case old_with_key os n of Some oldChild \<Rightarrow> PatchOf oldChild n
                                                | None \<Rightarrow> MountOf n) ns"
  proof (rule map_cong [OF refl])
    fix n assume "n \<in> set ns"
    with kn(1) obtain k where "key n = Some k" by (auto simp: list_all_iff)
    with map_of_keyed [OF ko(1) this]
    show "(case map_of K (the (key n)) of Some oldChild \<Rightarrow> PatchOf oldChild n | None \<Rightarrow> MountOf n)
        = (case old_with_key os n of Some oldChild \<Rightarrow> PatchOf oldChild n | None \<Rightarrow> MountOf n)"
      by (simp add: K_def)
  qed
  have rest: "map (\<lambda>(k, v). UnmountOf v) (filter (\<lambda>(k, v). Some k \<notin> set (map key ns)) K)
            = map UnmountOf (filter (\<lambda>oldChild. key oldChild \<notin> set (map key ns)) os)"
    unfolding K_def using ko(1) by (induction os) auto
  show ?thesis
    unfolding patchChildren_nodes [OF assms(1,2)] part
    using match_new_keyed [OF kn, of K "[]" 0] calls rest by simp
qed

lemma patchChildren_unkeyed:
  assumes "children oldVNode = map CNode os" and "children newVNode = map CNode ns"
      and "list_all (\<lambda>v. key v = None) os" and "list_all (\<lambda>v. key v = None) ns"
  shows "patchChildren oldVNode newVNode =
           map (\<lambda>(oldChild, n). PatchOf oldChild n) (zip os ns)
           @ map MountOf (drop (length os) ns)
           @ map UnmountOf (drop (length ns) os)"
proof -
  have "filter (\<lambda>v. key v = None) os = os"
    using assms(3) by (induction os) auto
  then have part: "partition_old (map CNode os) [] [] = ([], os)"
    using fold_unkeyed [OF assms(3), of "[]"] by (simp add: partition_old_nodes)
  show ?thesis
    unfolding patchChildren_nodes [OF assms(1,2)] part
    using match_new_unkeyed [OF assms(4), of "[]" os 0] by simp
qed

lemma old_with_key_Some:
  assumes "key n \<in> set (map key os)"
  shows "\<exists>oldChild. old_with_key os n = Some oldChild \<and> oldChild \<in> set os \<and> key oldChild = key n"
  using assms by (induction os) (auto simp: old_with_key_def)

lemma patch_same_type:
  assumes "vtype oldVNode = vtype newVNode"
  shows "el (fst (patch oldVNode newVNode)) = el oldVNode
       \<and> UnmountOf oldVNode \<notin> set (snd (patch oldVNode newVNode))
       \<and> MountOf newVNode \<notin> set (snd (patch oldVNode newVNode))
       \<and> (\<forall>v. MountOf v \<notin> set (snd (patch oldVNode newVNode)))"
  using assms
  by (cases "vtype newVNode")
     (auto simp: patch_def patchText_def patchElement_def patchFragment_def patchComponent_def
        set_el_def set_anchor_def set_component_def Let_def)

section \<open>Unmounting\<close>

lemma wf_perform: "wf s \<Longrightarrow> wf (perform x s)"
  by (cases x) (simp_all add: wf_cleanup)

lemma wf_fold_perform: "wf s \<Longrightarrow> wf (fold perform xs s)"
  by (induction xs arbitrary: s) (simp_all add: wf_perform)

lemma unmount_component:
  assumes "vtype v = Component f" and "component v = Some inst"
  shows "unmount v = unmount_instance inst"
  using assms by (cases v) simp

lemma unmount_instance_eq:
  "unmount_instance inst =
     invokeLifecycleHooks (unmounted inst)
     @ (case subTree inst of Some t \<Rightarrow> unmount t | None \<Rightarrow> [])
     @ (case update inst of Some u \<Rightarrow> [CleanupEffect u] | None \<Rightarrow> [])"
  by (cases inst) simp

section \<open>The depth bound does not change results\<close>

text \<open>A computation that returns within the depth bound \<open>n\<close> returns the same state and call
  tree within every larger bound.\<close>

lemma extendsD: "extends f g \<Longrightarrow> f x s = Some r \<Longrightarrow> g x s = Some r"
  unfolding extends_def by blast

lemma forEach_extends:
  assumes "extends f g"
  shows "forEach f xs s = Some r \<Longrightarrow> forEach g xs s = Some r"
proof (induction xs arbitrary: s r)
  case Nil
  then show ?case by simp
next
  case (Cons x xs)
  from Cons.prems obtain s1 tr1 s2 tr2 where
    a: "f x s = Some (s1, tr1)" and b: "forEach f xs s1 = Some (s2, tr2)"
    and r: "r = (s2, tr1 @ tr2)"
    by (auto split: option.splits)
  from extendsD [OF assms a] Cons.IH [OF b] r show ?case by simp
qed

lemma runOrSchedule_extends: "extends c c' \<Longrightarrow> extends (runOrSchedule c p) (runOrSchedule c' p)"
  by (auto simp: extends_def runOrSchedule_def split: option.splits)

lemma trigger_extends:
  assumes "extends c c'" and "trigger c p t k s = Some r"
  shows "trigger c' p t k s = Some r"
  using assms(2) forEach_extends [OF runOrSchedule_extends [OF assms(1)]]
  by (simp add: trigger_alt)

lemma computed_value_extends:
  assumes "extends c c'" and "computed_value c p x s = Some r"
  shows "computed_value c' p x s = Some r"
  using assms(2) extendsD [OF assms(1)]
  by (auto simp: computed_value_def Let_def split: if_splits option.splits)

lemma step_extends:
  assumes "extends c c'" and "step c p x s = Some r"
  shows "step c' p x s = Some r"
proof (cases x)
  case (Trigger t k)
  with assms show ?thesis by (auto simp: step_def intro: trigger_extends)
next
  case (Call e)
  with assms show ?thesis by (auto simp: step_def dest: extendsD)
next
  case (Value y)
  with assms show ?thesis by (auto simp: step_def intro: computed_value_extends)
next
  case (PSet q k v)
  with assms show ?thesis
    by (auto simp: step_def set_trap_def Let_def split: option.splits obj.splits if_splits
        intro: trigger_extends)
next
  case (PDelete q k)
  with assms show ?thesis
    by (auto simp: step_def deleteProperty_trap_def Let_def
        split: option.splits obj.splits if_splits intro: trigger_extends)
qed (use assms(2) in \<open>simp_all add: step_def\<close>)

lemma exec_extends:
  assumes "extends c c'" and "exec c p cs s = Some r"
  shows "exec c' p cs s = Some r"
proof -
  have "extends (step c p) (step c' p)"
    unfolding extends_def using step_extends [OF assms(1)] by blast
  from forEach_extends [OF this] assms(2) show ?thesis by (simp add: exec_def)
qed

lemma effectFn_extends:
  assumes "extends c c'" and "effectFn c p e s = Some r"
  shows "effectFn c' p e s = Some r"
  using assms(2) exec_extends [OF assms(1)]
  by (auto simp: effectFn_def Let_def split: option.splits)

lemma runScheduler_extends:
  assumes "extends c c'" and "runScheduler c p e s = Some r"
  shows "runScheduler c' p e s = Some r"
  using assms(2) exec_extends [OF assms(1)] trigger_extends [OF assms(1)]
  by (auto simp: runScheduler_def split: option.splits sched.splits if_splits)

lemma invoke_unfold:
  "invoke (Suc n) p f s =
     (case f of EffectFn e \<Rightarrow> effectFn (invoke n p) p e s
              | SchedulerOf e \<Rightarrow> runScheduler (invoke n p) p e s)"
  by simp

lemma invoke_Suc: "extends (invoke n p) (invoke (Suc n) p)"
proof (induction n)
  case 0
  show ?case by (simp add: extends_def)
next
  case (Suc n)
  show ?case
    unfolding extends_def
  proof (intro allI impI)
    fix f s r
    assume a: "invoke (Suc n) p f s = Some r"
    show "invoke (Suc (Suc n)) p f s = Some r"
    proof (cases f)
      case (EffectFn e)
      with a have "effectFn (invoke n p) p e s = Some r" by simp
      then have e1: "effectFn (invoke (Suc n) p) p e s = Some r"
        by (rule effectFn_extends [OF Suc])
      show ?thesis
        unfolding EffectFn invoke_unfold [of "Suc n"] fnref.case by (rule e1)
    next
      case (SchedulerOf e)
      with a have "runScheduler (invoke n p) p e s = Some r" by simp
      then have e1: "runScheduler (invoke (Suc n) p) p e s = Some r"
        by (rule runScheduler_extends [OF Suc])
      show ?thesis
        unfolding SchedulerOf invoke_unfold [of "Suc n"] fnref.case by (rule e1)
    qed
  qed
qed

lemma invoke_more_fuel:
  assumes "invoke n p f s = Some r"
  shows "invoke (n + m) p f s = Some r"
proof (induction m)
  case 0
  from assms show ?case by simp
next
  case (Suc m)
  from extendsD [OF invoke_Suc Suc] show ?case by (simp only: add_Suc_right)
qed

subsection \<open>Triggers that return\<close>

text \<open>
  What is proved below about a call of \<open>trigger\<close> is about a call that returns. Such calls
  exist at every depth of at least one: when the subscribers have no scheduler and their
  functions only read, \<open>trigger\<close> returns whatever the state is.
\<close>

lemma reader_returns:
  assumes "list_all is_read (fn p e (runs s e))"
  shows "\<exists>r. invoke (Suc n) p (EffectFn e) s = Some r"
proof -
  define s1 where "s1 = pushEffect e (cleanup e s)"
  have r: "runs s1 e = runs s e" by (simp add: s1_def pushEffect_def)
  from exec_reads [OF assms, of "invoke n p" p "s1\<lparr>runs := (runs s1)(e := Suc (runs s1 e))\<rparr>"]
  show ?thesis by (auto simp: effectFn_def Let_def s1_def [symmetric] r)
qed

lemma forEach_returns:
  assumes "\<forall>e \<in> set es. scheduler p e = None \<and> (\<forall>s. \<exists>r. f (EffectFn e) s = Some r)"
  shows "\<exists>r. forEach (runOrSchedule f p) es s = Some r"
  using assms
proof (induction es arbitrary: s)
  case Nil
  show ?case by simp
next
  case (Cons e es)
  then obtain s1 tr1 where "f (EffectFn e) s = Some (s1, tr1)" and sch: "scheduler p e = None"
    by fastforce
  then have a: "runOrSchedule f p e s = Some (s1, tr1)"
    by (simp add: runOrSchedule_def)
  from Cons.IH [of s1] Cons.prems obtain r where
    "forEach (runOrSchedule f p) es s1 = Some r" by auto
  with a show ?case by (cases r) simp
qed

lemma trigger_returns:
  assumes "\<forall>e \<in> set (subscribers s t k).
             scheduler p e = None \<and> (\<forall>m. list_all is_read (fn p e m))"
  shows "\<exists>r. trigger (invoke (Suc n) p) p t k s = Some r"
  unfolding trigger_alt
proof (rule forEach_returns)
  show "\<forall>e \<in> set (effectsToRun s (subscribers s t k)).
          scheduler p e = None \<and> (\<forall>s. \<exists>r. invoke (Suc n) p (EffectFn e) s = Some r)"
    using assms reader_returns by (auto simp: effectsToRun_def simp del: invoke.simps)
qed

section \<open>Laziness of computed refs\<close>













































section \<open>Claims about trigger\<close>

text \<open>
  C2. A call \<open>trigger(target, key)\<close> that returns has called, in the order of the dependency
  set, every effect registered for \<open>(target, key)\<close> at the moment of the call except the one
  that is the active effect: the effect function itself when the effect has no scheduler,
  its scheduler otherwise. So the trigger issued by a write that an effect makes during its
  own run does not select that effect.
\<close>

theorem trigger_excludes_active:
  assumes "trigger (invoke n p) p t k s = Some (s', tr)"
  shows "handled tr = map (\<lambda>e. (e, scheduler p e \<noteq> None))
                        (filter (\<lambda>e. Some e \<noteq> activeEffect s) (subscribers s t k))
         \<and> (\<forall>a. activeEffect s = Some a \<longrightarrow> a \<notin> set (invoked tr))"
  using trigger_handled [OF assms] by (auto simp: effectsToRun_def invoked_def)

theorem trigger_excludes_active_witness:
  "trigger (invoke 1 readers) readers 7 value_key
     (two_readers\<lparr>activeEffect := Some 1, effectStack := [1]\<rparr>) \<noteq> None
   \<and> handled (snd (the (trigger (invoke 1 readers) readers 7 value_key
        (two_readers\<lparr>activeEffect := Some 1, effectStack := [1]\<rparr>)))) = [(0, False)]
   \<and> 1 \<notin> set (invoked (snd (the (trigger (invoke 1 readers) readers 7 value_key
        (two_readers\<lparr>activeEffect := Some 1, effectStack := [1]\<rparr>)))))"
proof -
  let ?s = "two_readers\<lparr>activeEffect := Some 1, effectStack := [1]\<rparr>"
  have ne: "trigger (invoke 1 readers) readers 7 value_key ?s \<noteq> None"
    by (simp add: two_readers_def eval_defs readers_def)
  then obtain s' tr where eq: "trigger (invoke 1 readers) readers 7 value_key ?s = Some (s', tr)"
    by auto
  have subs: "subscribers ?s 7 value_key = [0, 1]"
    by (simp add: two_readers_def eval_defs readers_def)
  have sch: "scheduler readers 0 = None"
    by (simp add: readers_def)
  from trigger_excludes_active [OF eq] subs sch
  have "handled tr = [(0, False)]" and "1 \<notin> set (invoked tr)"
    by simp_all
  with ne eq show ?thesis by simp
qed

text \<open>
  The second half of C2 in the wording of the specification, that an effect which reads and
  writes the same key during its own run never re-enters itself synchronously, does not hold
  on the code: with two such effects on one ref, the write of effect \<open>0\<close> runs effect \<open>1\<close>, whose write runs effect \<open>0\<close> again
  while its first call is still on the stack.
\<close>

theorem self_reentry_counterexample:
  "fn pingpong 0 0 = [Track 7 value_key, Trigger 7 value_key]
   \<and> map_option snd (exec (invoke 3 pingpong) pingpong [Call 1, Call 0] initial)
       = Some [Ran 1 [Tracked 7 value_key],
               Ran 0 [Tracked 7 value_key,
                      Ran 1 [Tracked 7 value_key, Ran 0 [Tracked 7 value_key]]]]
   \<and> list_ex (reentered 0) (snd (the (exec (invoke 3 pingpong) pingpong [Call 1, Call 0] initial)))"
  by (simp add: eval_defs pingpong_def numeral_3_eq_3)

text \<open>
  C10. One call of \<open>trigger(target, key)\<close> calls each subscribed effect (or its scheduler) at
  most once: the calls it makes are the run set computed from the dependency set before any
  effect executes, whatever the effects do to the dependency set while they run.
\<close>

theorem trigger_each_once:
  assumes "distinct (subscribers s t k)"
      and "trigger (invoke n p) p t k s = Some (s', tr)"
  shows "distinct (invoked tr) \<and> invoked tr = effectsToRun s (subscribers s t k)"
  using trigger_handled [OF assms(2)] assms(1)
  by (simp add: invoked_def effectsToRun_def comp_def)

theorem trigger_each_once_witness:
  "distinct (subscribers two_readers 7 value_key)
   \<and> trigger (invoke 1 readers) readers 7 value_key two_readers \<noteq> None
   \<and> invoked (snd (the (trigger (invoke 1 readers) readers 7 value_key two_readers))) = [0, 1]
   \<and> subscribers (fst (the (trigger (invoke 1 readers) readers 7 value_key two_readers)))
        7 value_key = [0, 1]"
proof -
  have subs: "subscribers two_readers 7 value_key = [0, 1]"
    by (simp add: two_readers_def eval_defs readers_def)
  then have d: "distinct (subscribers two_readers 7 value_key)"
    by simp
  have ne: "trigger (invoke 1 readers) readers 7 value_key two_readers \<noteq> None"
    by (simp add: two_readers_def eval_defs readers_def)
  then obtain s' tr
    where eq: "trigger (invoke 1 readers) readers 7 value_key two_readers = Some (s', tr)"
    by auto
  have act: "activeEffect two_readers = None"
    by (simp add: two_readers_def eval_defs readers_def)
  have after: "subscribers (fst (the (trigger (invoke 1 readers) readers 7 value_key two_readers)))
        7 value_key = [0, 1]"
    by (simp add: two_readers_def eval_defs readers_def)
  from trigger_each_once [OF d eq] subs act have "invoked tr = [0, 1]"
    by (simp add: effectsToRun_def)
  with d ne eq after show ?thesis by simp
qed

section \<open>Claims about the dependencies of an effect\<close>

text \<open>
  C1. Let a run of effect \<open>E\<close> return, and let \<open>E\<close> be neither called again nor
  cleaned up by user code while that run was going on. Then, when the run returns, \<open>E\<close> is
  registered in exactly the dependency sets of the pairs \<open>(target, key)\<close> that were tracked
  with \<open>E\<close> as the active effect during the run, and its own \<open>deps\<close> holds exactly these
  sets: what earlier runs had read is purged by the cleanup at the start of the run. So a
  \<open>trigger(target, key)\<close> on that state, from outside \<open>E\<close>, calls \<open>E\<close> (or its scheduler)
  if and only if the run read \<open>(target, key)\<close>.
\<close>

theorem effect_deps_exact:
  assumes "wf s"
      and "invoke n p (EffectFn E) s = Some (s', [Ran E sub])"
      and "\<not> list_ex (disturbs E) sub"
  shows "(\<forall>t k. E \<in> set (subscribers s' t k) \<longleftrightarrow> (t, k) \<in> set (reads_of sub))
       \<and> set (deps s' E) = set (reads_of sub)
       \<and> (\<forall>m t k s'' tr. activeEffect s \<noteq> Some E
             \<longrightarrow> trigger (invoke m p) p t k s' = Some (s'', tr)
             \<longrightarrow> (E \<in> set (invoked tr) \<longleftrightarrow> (t, k) \<in> set (reads_of sub)))"
proof -
  from assms(1) have l: "linked s" and t: "top_ok s"
    by (simp_all add: wf_linked) (simp add: wf_def)
  have subs: "\<And>t k. E \<in> set (subscribers s' t k) \<longleftrightarrow> (t, k) \<in> set (reads_of sub)"
    using effect_run_subscriptions(1) [OF l t assms(2,3)] .
  have act: "activeEffect s' = activeEffect s"
    using effect_run_subscriptions(2) [OF l t assms(2,3)] .
  from invoke_wf [OF assms(2,1)] have "consistent s'" by (simp add: wf_def)
  then have "\<And>t k. (t, k) \<in> set (deps s' E) \<longleftrightarrow> E \<in> set (subscribers s' t k)"
    by (simp add: consistent_def)
  with subs have d: "set (deps s' E) = set (reads_of sub)" by auto
  have "E \<in> set (invoked tr) \<longleftrightarrow> (t, k) \<in> set (reads_of sub)"
    if "activeEffect s \<noteq> Some E" and "trigger (invoke m p) p t k s' = Some (s'', tr)"
    for m t k s'' tr
  proof -
    from trigger_handled [OF that(2)]
    have "invoked tr = effectsToRun s' (subscribers s' t k)"
      by (simp add: invoked_def comp_def)
    with that(1) act subs show ?thesis by (auto simp: effectsToRun_def)
  qed
  with subs d show ?thesis by blast
qed

theorem effect_deps_exact_witness:
  "wf switched_once
   \<and> 0 \<in> set (subscribers switched_once 7 value_key)
   \<and> map_option snd (invoke 1 switching (EffectFn 0) switched_once)
        = Some [Ran 0 [Tracked 8 value_key]]
   \<and> \<not> list_ex (disturbs 0) [Tracked 8 value_key]
   \<and> 0 \<notin> set (subscribers (fst (the (invoke 1 switching (EffectFn 0) switched_once))) 7 value_key)
   \<and> 0 \<in> set (subscribers (fst (the (invoke 1 switching (EffectFn 0) switched_once))) 8 value_key)
   \<and> set (deps (fst (the (invoke 1 switching (EffectFn 0) switched_once))) 0) = {(8, value_key)}"
proof -
  have "invoke 1 switching (EffectFn 0) initial \<noteq> None"
    by (simp add: eval_defs switching_def)
  then obtain s0 tr0 where e0: "invoke 1 switching (EffectFn 0) initial = Some (s0, tr0)"
    by auto
  then have s0: "switched_once = s0" by (simp add: switched_once_def)
  from invoke_wf [OF e0 wf_initial] s0 have w: "wf switched_once" by simp
  have before: "0 \<in> set (subscribers switched_once 7 value_key)"
    by (simp add: switched_once_def eval_defs switching_def)
  have tr: "map_option snd (invoke 1 switching (EffectFn 0) switched_once)
        = Some [Ran 0 [Tracked 8 value_key]]"
    by (simp add: switched_once_def eval_defs switching_def)
  then obtain s' where e1: "invoke 1 switching (EffectFn 0) switched_once
        = Some (s', [Ran 0 [Tracked 8 value_key]])"
    by auto
  have nd: "\<not> list_ex (disturbs 0) [Tracked 8 value_key]" by simp
  from effect_deps_exact [OF w e1 nd]
  have "0 \<notin> set (subscribers s' 7 value_key)" "0 \<in> set (subscribers s' 8 value_key)"
       "set (deps s' 0) = {(8, value_key)}"
    by (simp_all add: value_key_def)
  with w before tr nd e1 show ?thesis by simp
qed


text \<open>
  C1 in the wording of the specification, for every effect and every container and after
  any run, does not hold on the code, in two ways. An effect that was cleaned up after its run
  (\<open>stop()\<close>) is not called by a mutation of what that run read. And when an effect is
  called again during its own run (here through effect \<open>1\<close>), the nested call purges what
  the outer run had read so far: at the end effect \<open>0\<close> depends on the refs \<open>4\<close> and \<open>3\<close>,
  which is neither what the outer run read (\<open>1\<close> and \<open>3\<close>) nor what the nested run read
  (\<open>4\<close>), and a mutation of the ref \<open>1\<close> no longer calls it.
\<close>

theorem stale_or_stopped_counterexample:
  "map_option snd (exec (invoke 1 readers) readers [Call 0, Cleanup 0, Trigger 7 value_key] initial)
     = Some [Ran 0 [Tracked 7 value_key], Cleaned 0]
   \<and> map_option snd (exec (invoke 3 reentrant) reentrant [Call 1, Call 0] initial)
     = Some [Ran 1 [Tracked 2 value_key],
             Ran 0 [Tracked 1 value_key,
                    Ran 1 [Tracked 2 value_key, Ran 0 [Tracked 4 value_key]],
                    Tracked 3 value_key]]
   \<and> deps (fst (the (exec (invoke 3 reentrant) reentrant [Call 1, Call 0] initial))) 0
     = [(4, value_key), (3, value_key)]
   \<and> map_option snd (exec (invoke 3 reentrant) reentrant
        [Call 1, Call 0, Trigger 1 value_key] initial)
     = Some [Ran 1 [Tracked 2 value_key],
             Ran 0 [Tracked 1 value_key,
                    Ran 1 [Tracked 2 value_key, Ran 0 [Tracked 4 value_key]],
                    Tracked 3 value_key]]"
  by (simp add: eval_defs readers_def reentrant_def numeral_3_eq_3)

section \<open>Claim about computed refs\<close>




section \<open>Claim about the job queue\<close>

text \<open>
  C6. A flush that returns has called every job of the live pending set once, in
  insertion order: first the jobs that were pending when the flush began, then the jobs that
  were first queued while the pass was running. The calls are calls of the job itself, not of
  a scheduler. Afterwards the pending set is empty and the scheduling flag is reset.
\<close>

theorem flush_runs_live_queue:
  assumes "distinct (pendingJobs s)"
      and "flushJobs m (invoke n p) s = Some (s', tr)"
  shows "pendingJobs s' = [] \<and> \<not> isFlushing s'
       \<and> (\<forall>x \<in> set (handled tr). \<not> snd x)
       \<and> distinct (invoked tr)
       \<and> (\<exists>later. invoked tr = pendingJobs s @ later)
       \<and> (\<exists>s1. flushLoop m (invoke n p) 0 s = Some (s1, tr) \<and> invoked tr = pendingJobs s1)"
proof -
  from assms(2) obtain s1 where
    l: "flushLoop m (invoke n p) 0 s = Some (s1, tr)" and
    s': "s' = s1\<lparr>pendingJobs := [], isFlushing := False\<rparr>"
    by (auto simp: flushJobs_def split: option.splits)
  from flushLoop_handled [OF l assms(1)] obtain ys where
    h: "handled tr = map (\<lambda>job. (job, False)) (pendingJobs s1)" and
    g: "pendingJobs s1 = pendingJobs s @ ys" and d: "distinct (pendingJobs s1)"
    by auto
  from h have i: "invoked tr = pendingJobs s1" by (simp add: invoked_def comp_def)
  from h have "\<forall>x \<in> set (handled tr). \<not> snd x" by auto
  with s' i g d l show ?thesis by auto
qed

theorem flush_runs_live_queue_witness:
  "distinct (pendingJobs (queueJob 0 initial))
   \<and> flushJobs 2 (invoke 1 chain) (queueJob 0 initial) \<noteq> None
   \<and> pendingJobs (fst (the (flushJobs 2 (invoke 1 chain) (queueJob 0 initial)))) = []
   \<and> \<not> isFlushing (fst (the (flushJobs 2 (invoke 1 chain) (queueJob 0 initial))))
   \<and> distinct (invoked (snd (the (flushJobs 2 (invoke 1 chain) (queueJob 0 initial)))))
   \<and> (\<exists>later. invoked (snd (the (flushJobs 2 (invoke 1 chain) (queueJob 0 initial))))
         = pendingJobs (queueJob 0 initial) @ later)"
proof -
  have d: "distinct (pendingJobs (queueJob 0 initial))"
    by (simp add: eval_defs)
  have ne: "flushJobs 2 (invoke 1 chain) (queueJob 0 initial) \<noteq> None"
    by (simp add: flushJobs_def eval_defs chain_def numeral_2_eq_2)
  then obtain s' tr where
    eq: "flushJobs 2 (invoke 1 chain) (queueJob 0 initial) = Some (s', tr)" by auto
  from flush_runs_live_queue [OF d eq] d ne eq show ?thesis by simp
qed


text \<open>
  C6 in the wording of the specification, that a job queued during a flush is not called in
  that pass, does not hold on the code: job \<open>1\<close> is passed to \<open>queueJob\<close> by job \<open>0\<close> while
  the flush is running, and the same pass calls it. (Job \<open>1\<close> in turn queues job \<open>0\<close>, which is still in
  the set: nothing is added, no further flush is scheduled, and the set is cleared.)
\<close>

theorem flush_same_pass_counterexample:
  "map_option snd (flushJobs 2 (invoke 1 chain) (queueJob 0 initial)) = Some [Ran 0 [], Ran 1 []]
   \<and> pendingJobs (queueJob 0 initial) = [0]
   \<and> pendingJobs (fst (the (flushJobs 2 (invoke 1 chain) (queueJob 0 initial)))) = []
   \<and> microtasks (fst (the (flushJobs 2 (invoke 1 chain) (queueJob 0 initial)))) = 1"
  by (simp add: flushJobs_def eval_defs chain_def numeral_2_eq_2)


section \<open>Claims about proxies\<close>

text \<open>
  C4. An object passed to \<open>markRaw\<close> is meant to come back from \<open>reactive\<close> unwrapped. On the
  code it does not: \<open>markRaw\<close> stores \<open>false\<close> under \<open>__b_isReactive\<close>, and \<open>reactive\<close> returns
  its argument only when that property is truthy, so for the marked object \<open>0\<close> it builds the
  new proxy \<open>1\<close>, and \<open>isReactive\<close> holds of that proxy. (Wrapping a target a second time and
  wrapping a proxy do return the same proxy: \<open>reactive_again\<close>, \<open>reactive_of_proxy\<close>.)
\<close>

theorem markRaw_object_is_wrapped:
  "fst (markRaw 0 one_object) = 0
   \<and> fst (reactive 0 (snd (markRaw 0 one_object))) = 1
   \<and> heap (snd (reactive 0 (snd (markRaw 0 one_object)))) 1 = Some (ProxyOf 0)
   \<and> isReactive (snd (reactive 0 (snd (markRaw 0 one_object)))) (VRef 1)"
  by (simp add: proxy_defs initial_def)


text \<open>
  C5. An effect that has enumerated the keys of a reactive object is meant to run again when
  a key is added or deleted. On the code it does not: the \<open>ownKeys\<close> trap tracks a symbol made
  by \<open>Symbol('iterate')\<close> at that call, a key no \<open>trigger\<close> is ever called with. Effect \<open>0\<close>
  lists the keys of the proxy \<open>1\<close>, then the key \<open>b\<close> is added and the key \<open>a\<close> deleted, and the
  effect has run once only.
\<close>

theorem enumeration_not_retriggered:
  "map_option snd (exec (invoke 1 lister) lister
      [Call 0, PSet 1 (KStr ''b'') (VNum 2), PDelete 1 (KStr ''a'')] one_proxy)
     = Some [Ran 0 [Tracked 0 (KSym 0)]]
   \<and> runs (fst (the (exec (invoke 1 lister) lister
      [Call 0, PSet 1 (KStr ''b'') (VNum 2), PDelete 1 (KStr ''a'')] one_proxy))) 0 = 1"
  by (simp add: proxy_defs eval_defs lister_def)


section \<open>Claims about the renderer\<close>

text \<open>
  C7. Let the old and the new children all be virtual nodes. If all of them
  carry keys, with no key twice, the new keys are the old keys in some order, and each new
  child has the node type of the old child with its key, then \<open>patchChildren\<close> calls \<open>patch\<close>
  once for each new child, in order, with the old child that carries its key, and makes no
  call of \<open>unmount\<close> or \<open>mount\<close>; each of these patches gives the new node the DOM node of
  the old one and itself asks for no unmount or mount. If no child carries a key, the new
  children are patched against the old ones position by position; the surplus new children
  are mounted, the surplus old children unmounted.
\<close>

theorem keyed_children_patched_in_place:
  assumes "children oldVNode = map CNode os" and "children newVNode = map CNode ns"
  shows "(keyed_list os \<and> keyed_list ns \<and> set (map key ns) = set (map key os)
          \<and> (\<forall>n \<in> set ns. \<forall>oldChild \<in> set os. key oldChild = key n \<longrightarrow> vtype oldChild = vtype n)
          \<longrightarrow> patchChildren oldVNode newVNode
                = map (\<lambda>n. PatchOf (the (old_with_key os n)) n) ns
              \<and> (\<forall>n \<in> set ns. the (old_with_key os n) \<in> set os
                    \<and> key (the (old_with_key os n)) = key n
                    \<and> el (fst (patch (the (old_with_key os n)) n)) = el (the (old_with_key os n))
                    \<and> (\<forall>v. UnmountOf v \<notin> set (snd (patch (the (old_with_key os n)) n)))
                    \<and> (\<forall>v. MountOf v \<notin> set (snd (patch (the (old_with_key os n)) n)))))
       \<and> (list_all (\<lambda>v. key v = None) os \<and> list_all (\<lambda>v. key v = None) ns
          \<longrightarrow> patchChildren oldVNode newVNode
                = map (\<lambda>(oldChild, n). PatchOf oldChild n) (zip os ns)
                  @ map MountOf (drop (length os) ns)
                  @ map UnmountOf (drop (length ns) os))"
proof (intro conjI impI)
  assume h: "keyed_list os \<and> keyed_list ns \<and> set (map key ns) = set (map key os)
          \<and> (\<forall>n \<in> set ns. \<forall>oldChild \<in> set os. key oldChild = key n \<longrightarrow> vtype oldChild = vtype n)"
  have found: "\<exists>oldChild. old_with_key os n = Some oldChild \<and> oldChild \<in> set os
                  \<and> key oldChild = key n" if "n \<in> set ns" for n
    using old_with_key_Some [of n os] that h by auto
  have "filter (\<lambda>oldChild. key oldChild \<notin> set (map key ns)) os = []"
    using h by (auto simp: filter_empty_conv)
  moreover have "map (\<lambda>n. case old_with_key os n of Some oldChild \<Rightarrow> PatchOf oldChild n
                                                   | None \<Rightarrow> MountOf n) ns
               = map (\<lambda>n. PatchOf (the (old_with_key os n)) n) ns"
  proof (rule map_cong [OF refl])
    fix n assume "n \<in> set ns"
    from found [OF this] obtain oldChild where "old_with_key os n = Some oldChild" by blast
    then show "(case old_with_key os n of Some oldChild \<Rightarrow> PatchOf oldChild n
                                                   | None \<Rightarrow> MountOf n)
             = PatchOf (the (old_with_key os n)) n" by simp
  qed
  ultimately show "patchChildren oldVNode newVNode
                = map (\<lambda>n. PatchOf (the (old_with_key os n)) n) ns"
    using patchChildren_keyed [OF assms] h by simp
  show "\<forall>n \<in> set ns. the (old_with_key os n) \<in> set os
                    \<and> key (the (old_with_key os n)) = key n
                    \<and> el (fst (patch (the (old_with_key os n)) n)) = el (the (old_with_key os n))
                    \<and> (\<forall>v. UnmountOf v \<notin> set (snd (patch (the (old_with_key os n)) n)))
                    \<and> (\<forall>v. MountOf v \<notin> set (snd (patch (the (old_with_key os n)) n)))"
  proof
    fix n assume n: "n \<in> set ns"
    from found [OF n] obtain oldChild where
      o: "old_with_key os n = Some oldChild" "oldChild \<in> set os" "key oldChild = key n" by blast
    with h n have ty: "vtype oldChild = vtype n" by blast
    have "\<forall>v. UnmountOf v \<notin> set (snd (patch oldChild n))"
      using ty
      by (cases "vtype n")
         (auto simp: patch_def patchText_def patchElement_def patchFragment_def
            patchComponent_def set_el_def set_anchor_def set_component_def Let_def)
    with patch_same_type [OF ty] o
    show "the (old_with_key os n) \<in> set os
                    \<and> key (the (old_with_key os n)) = key n
                    \<and> el (fst (patch (the (old_with_key os n)) n)) = el (the (old_with_key os n))
                    \<and> (\<forall>v. UnmountOf v \<notin> set (snd (patch (the (old_with_key os n)) n)))
                    \<and> (\<forall>v. MountOf v \<notin> set (snd (patch (the (old_with_key os n)) n)))"
      by simp
  qed
next
  assume "list_all (\<lambda>v. key v = None) os \<and> list_all (\<lambda>v. key v = None) ns"
  then show "patchChildren oldVNode newVNode
                = map (\<lambda>(oldChild, n). PatchOf oldChild n) (zip os ns)
                  @ map MountOf (drop (length os) ns)
                  @ map UnmountOf (drop (length ns) os)"
    using patchChildren_unkeyed [OF assms] by simp
qed

theorem keyed_children_patched_in_place_witness:
  "keyed_list [li ''a'' (Some 1), li ''b'' (Some 2), li ''c'' (Some 3)]
   \<and> keyed_list [li ''c'' None, li ''a'' None, li ''b'' None]
   \<and> patchChildren (ul [li ''a'' (Some 1), li ''b'' (Some 2), li ''c'' (Some 3)])
                    (ul [li ''c'' None, li ''a'' None, li ''b'' None])
       = [PatchOf (li ''c'' (Some 3)) (li ''c'' None),
          PatchOf (li ''a'' (Some 1)) (li ''a'' None),
          PatchOf (li ''b'' (Some 2)) (li ''b'' None)]
   \<and> el (fst (patch (li ''c'' (Some 3)) (li ''c'' None))) = Some 3
   \<and> patchChildren (ul [item (Some 1), item (Some 2)]) (ul [item None, item None, item None])
       = [PatchOf (item (Some 1)) (item None), PatchOf (item (Some 2)) (item None),
          MountOf (item None)]
   \<and> patchChildren (ul [item (Some 1), item (Some 2), item (Some 3)]) (ul [item None])
       = [PatchOf (item (Some 1)) (item None), UnmountOf (item (Some 2)),
          UnmountOf (item (Some 3))]"
proof -
  let ?os = "[li ''a'' (Some 1), li ''b'' (Some 2), li ''c'' (Some 3)]"
  let ?ns = "[li ''c'' None, li ''a'' None, li ''b'' None]"
  have c: "children (ul vs) = map CNode vs" for vs by (simp add: ul_def)
  have k1: "keyed_list ?os" and k2: "keyed_list ?ns"
    by (simp_all add: keyed_list_def li_def)
  have ks: "set (map key ?ns) = set (map key ?os)"
    by (auto simp: li_def)
  have ty: "\<forall>n \<in> set ?ns. \<forall>oldChild \<in> set ?os. key oldChild = key n \<longrightarrow> vtype oldChild = vtype n"
    by (simp add: li_def)
  have look: "the (old_with_key ?os (li ''c'' None)) = li ''c'' (Some 3)"
             "the (old_with_key ?os (li ''a'' None)) = li ''a'' (Some 1)"
             "the (old_with_key ?os (li ''b'' None)) = li ''b'' (Some 2)"
    by (simp_all add: old_with_key_def li_def)
  from keyed_children_patched_in_place [OF c c, of ?os ?ns] k1 k2 ks ty
  have 1: "patchChildren (ul ?os) (ul ?ns) = map (\<lambda>n. PatchOf (the (old_with_key ?os n)) n) ?ns"
    and 2: "el (fst (patch (the (old_with_key ?os (li ''c'' None))) (li ''c'' None)))
              = el (the (old_with_key ?os (li ''c'' None)))"
    by simp_all
  have u: "list_all (\<lambda>v. key v = None) [item (Some 1), item (Some 2)]"
          "list_all (\<lambda>v. key v = None) [item None, item None, item None]"
          "list_all (\<lambda>v. key v = None) [item (Some 1), item (Some 2), item (Some 3)]"
          "list_all (\<lambda>v. key v = None) [item None]"
    by (simp_all add: item_def)
  from keyed_children_patched_in_place
         [OF c c, of "[item (Some 1), item (Some 2)]" "[item None, item None, item None]"] u
  have 3: "patchChildren (ul [item (Some 1), item (Some 2)]) (ul [item None, item None, item None])
       = [PatchOf (item (Some 1)) (item None), PatchOf (item (Some 2)) (item None),
          MountOf (item None)]"
    by simp
  from keyed_children_patched_in_place
         [OF c c, of "[item (Some 1), item (Some 2), item (Some 3)]" "[item None]"] u
  have 4: "patchChildren (ul [item (Some 1), item (Some 2), item (Some 3)]) (ul [item None])
       = [PatchOf (item (Some 1)) (item None), UnmountOf (item (Some 2)),
          UnmountOf (item (Some 3))]"
    by simp
  from 1 2 look 3 4 k1 k2 show ?thesis by (simp add: li_def)
qed

text \<open>
  C7 in the wording of the specification, for every keyed list, does not hold on the code
  when a key survives with another node type: the child is matched
  by its key, and \<open>patch\<close> then unmounts the old node and mounts the new one, which does not
  get the DOM node of the old one.
\<close>

theorem keyed_type_change_counterexample:
  "keyed_list [tagged ''div'' ''a'' (Some 1)] \<and> keyed_list [tagged ''span'' ''a'' None]
   \<and> patchChildren (ul [tagged ''div'' ''a'' (Some 1)]) (ul [tagged ''span'' ''a'' None])
       = [PatchOf (tagged ''div'' ''a'' (Some 1)) (tagged ''span'' ''a'' None)]
   \<and> patch (tagged ''div'' ''a'' (Some 1)) (tagged ''span'' ''a'' None)
       = (tagged ''span'' ''a'' None,
          [UnmountOf (tagged ''div'' ''a'' (Some 1)), MountOf (tagged ''span'' ''a'' None)])
   \<and> el (fst (patch (tagged ''div'' ''a'' (Some 1)) (tagged ''span'' ''a'' None)))
       \<noteq> el (tagged ''div'' ''a'' (Some 1))"
  by (simp add: keyed_list_def tagged_def ul_def patchChildren_def patch_def map_delete_def)

text \<open>
  C8. Unmounting a component virtual node that has an instance does, in this order: the calls
  of all unmount callbacks of the instance, the unmount of the rendered subtree, the cleanup
  of the update effect. After it the update effect is in no dependency set and its \<open>deps\<close> is
  empty.
\<close>

theorem unmount_component_order:
  assumes "vtype v = Component f" and "component v = Some inst"
  shows "unmount v = map InvokeHook (unmounted inst)
                     @ (case subTree inst of Some t \<Rightarrow> unmount t | None \<Rightarrow> [])
                     @ (case update inst of Some u \<Rightarrow> [CleanupEffect u] | None \<Rightarrow> [])
       \<and> (\<forall>u s. update inst = Some u \<longrightarrow> wf s \<longrightarrow>
             deps (fold perform (unmount v) s) u = []
             \<and> (\<forall>t k. u \<notin> set (subscribers (fold perform (unmount v) s) t k)))"
proof -
  have eq: "unmount v = map InvokeHook (unmounted inst)
                     @ (case subTree inst of Some t \<Rightarrow> unmount t | None \<Rightarrow> [])
                     @ (case update inst of Some u \<Rightarrow> [CleanupEffect u] | None \<Rightarrow> [])"
    using unmount_component [OF assms] unmount_instance_eq [of inst]
    by (simp add: invokeLifecycleHooks_def)
  have "deps (fold perform (unmount v) s) u = []
        \<and> (\<forall>t k. u \<notin> set (subscribers (fold perform (unmount v) s) t k))"
    if u: "update inst = Some u" and w: "wf s" for u s
  proof -
    define before where "before = map InvokeHook (unmounted inst)
                     @ (case subTree inst of Some t \<Rightarrow> unmount t | None \<Rightarrow> [])"
    from eq u have "unmount v = before @ [CleanupEffect u]" by (simp add: before_def)
    then have f: "fold perform (unmount v) s = cleanup u (fold perform before s)" by simp
    from wf_fold_perform [OF w] have "linked (fold perform before s)" by (rule wf_linked)
    from cleanup_removes [OF this] f show ?thesis by simp
  qed
  with eq show ?thesis by blast
qed

theorem unmount_component_order_witness:
  "vtype widget = Component 1 \<and> component widget = Some widget_instance
   \<and> unmount widget = [InvokeHook 10, InvokeHook 11, InvokeHook 12, RemoveChild 4,
                        CleanupEffect 1, RemoveChild 3, CleanupEffect 0]
   \<and> update widget_instance = Some 0 \<and> wf two_readers
   \<and> subscribers two_readers 7 value_key = [0, 1]
   \<and> 0 \<notin> set (subscribers (fold perform (unmount widget) two_readers) 7 value_key)
   \<and> deps (fold perform (unmount widget) two_readers) 0 = []"
proof -
  have v: "vtype widget = Component 1" "component widget = Some widget_instance"
    by (simp_all add: widget_def)
  have u: "update widget_instance = Some 0" by (simp add: widget_instance_def)
  have "exec (invoke 1 readers) readers [Call 0, Call 1] initial \<noteq> None"
    by (simp add: eval_defs readers_def)
  then obtain s0 tr0 where
    e0: "exec (invoke 1 readers) readers [Call 0, Call 1] initial = Some (s0, tr0)" by auto
  from run_wf [OF e0 wf_initial] e0 have w: "wf two_readers" by (simp add: two_readers_def)
  have subs: "subscribers two_readers 7 value_key = [0, 1]"
    by (simp add: two_readers_def eval_defs readers_def)
  from unmount_component_order [OF v] u w
  have eq: "unmount widget = map InvokeHook (unmounted widget_instance)
              @ (case subTree widget_instance of Some t \<Rightarrow> unmount t | None \<Rightarrow> [])
              @ (case update widget_instance of Some u \<Rightarrow> [CleanupEffect u] | None \<Rightarrow> [])"
    and gone: "deps (fold perform (unmount widget) two_readers) 0 = []"
              "0 \<notin> set (subscribers (fold perform (unmount widget) two_readers) 7 value_key)"
    by blast+
  from eq have "unmount widget = [InvokeHook 10, InvokeHook 11, InvokeHook 12, RemoveChild 4,
                        CleanupEffect 1, RemoveChild 3, CleanupEffect 0]"
    by (simp add: widget_instance_def inner_widget_def invokeLifecycleHooks_def)
  with v u w subs gone show ?thesis by simp
qed



end
